theory Spec2Isabelle
  imports Main "HOL-Library.Word"
begin

section \<open>The profile parser of gperf2flamegraph.py\<close>

text \<open>
  The profile file is a sequence of bytes. \<open>read_slots\<close> of the source reads \<open>8 * n\<close>
  bytes and unpacks them with the format \<open>'Q' * n\<close>: \<open>n\<close> unsigned 64-bit words in the
  byte order of the platform, taken here as little-endian. A short read makes
  \<open>struct.unpack\<close> raise \<open>struct.error\<close>. The file position is the list of bytes not
  yet read, passed along explicitly.
\<close>

type_synonym byte = "8 word"

datatype error =
    StructError
  | AssertionError string
  | UnicodeDecodeError
  | IndexError
  | ValueError
  | CalledProcessError
  | OSError

record Stacktrace =
  sample_count :: int
  pcs :: "int list"
  symbols :: "string list option"

record ProfilerResult =
  sampling_period_in_us :: int
  proc_mapped_objects :: string
  stacktraces :: "Stacktrace list"

definition UNKNOWN_SYMBOL :: string where
  "UNKNOWN_SYMBOL = ''???''"

fun unpack_Q :: "byte list \<Rightarrow> int" where
  "unpack_Q [] = 0"
| "unpack_Q (b # bs) = uint b + 256 * unpack_Q bs"

fun unpack_slots :: "nat \<Rightarrow> byte list \<Rightarrow> int list" where
  "unpack_slots 0 bs = []"
| "unpack_slots (Suc n) bs = unpack_Q (take 8 bs) # unpack_slots n (drop 8 bs)"

definition read_slots :: "nat \<Rightarrow> byte list \<Rightarrow> error + (int list \<times> byte list)" where
  "read_slots n f =
     (if length f < 8 * n then Inl StructError
      else Inr (unpack_slots n (take (8 * n) f), drop (8 * n) f))"

text \<open>
  The \<open>while True\<close> loop of \<open>_parse_profiler_result\<close>: two slots, then \<open>num_pcs\<close> slots,
  and only then the test for the trailer. The accumulator is \<open>result.stacktraces\<close>.
\<close>

function read_records ::
  "byte list \<Rightarrow> Stacktrace list \<Rightarrow> error + (Stacktrace list \<times> byte list)" where
  "read_records f acc =
     (case read_slots 2 f of
        Inl e \<Rightarrow> Inl e
      | Inr (hdr, f1) \<Rightarrow>
          (case hdr of
             [count, num_pcs] \<Rightarrow>
               (case read_slots (nat num_pcs) f1 of
                  Inl e \<Rightarrow> Inl e
                | Inr (ps, f2) \<Rightarrow>
                    if count = 0 then
                      (if num_pcs = 1 then Inr (acc, f2)
                       else Inl (AssertionError ''Invalid trailer''))
                    else read_records f2
                           (acc @ [\<lparr>sample_count = count, pcs = ps, symbols = None\<rparr>]))
           | _ \<Rightarrow> Inl ValueError))"
  by pat_completeness auto
termination
proof (relation "measure (\<lambda>(f, acc). length f)")
  show "wf (measure (\<lambda>(f, acc). length f))" by simp
next
  fix f :: "byte list" and acc :: "Stacktrace list" and x2 hdr f1 count l num_pcs l2 y2 ps f2
  assume a: "read_slots 2 f = Inr x2" "(hdr, f1) = x2"
    and b: "read_slots (nat num_pcs) f1 = Inr y2" "(ps, f2) = y2"
  from a have "length f1 < length f"
    by (auto simp: read_slots_def split: if_splits)
  moreover from b have "length f2 \<le> length f1"
    by (auto simp: read_slots_def split: if_splits)
  ultimately show "((f2, acc @ [\<lparr>sample_count = count, pcs = ps, symbols = None\<rparr>]), (f, acc))
      \<in> measure (\<lambda>(f, acc). length f)"
    by simp
qed

declare read_records.simps [simp del]

text \<open>
  \<open>_parse_profiler_result\<close>. The decoding of the trailing bytes as text
  (\<open>f.read().decode()\<close>) is the codec of the Python library, taken as the parameter
  \<open>decode\<close>: \<open>None\<close> stands for \<open>UnicodeDecodeError\<close>.
\<close>

definition parse_profiler_result ::
  "(byte list \<Rightarrow> string option) \<Rightarrow> byte list \<Rightarrow> error + ProfilerResult" where
  "parse_profiler_result decode f =
     (case read_slots 5 f of
        Inl e \<Rightarrow> Inl e
      | Inr (hdr, f1) \<Rightarrow>
          (case hdr of
             [header_count, header_slots, version, period, padding] \<Rightarrow>
               if \<not> (header_count = 0 \<and> header_slots = 3 \<and> version = 0 \<and> padding = 0)
               then Inl (AssertionError ''Invalid header, this profiler result is not valid'')
               else
                 (case read_records f1 [] of
                    Inl e \<Rightarrow> Inl e
                  | Inr (sts, f2) \<Rightarrow>
                      (case decode f2 of
                         None \<Rightarrow> Inl UnicodeDecodeError
                       | Some txt \<Rightarrow>
                           Inr \<lparr>sampling_period_in_us = period,
                                proc_mapped_objects = txt,
                                stacktraces = sts\<rparr>))
           | _ \<Rightarrow> Inl ValueError))"


section \<open>Symbols and their simplification (utils.py)\<close>

text \<open>
  \<open>_remove_matching_brackets\<close>: the loop over the characters of \<open>s\<close>, with the local
  variables \<open>result\<close> and \<open>depth\<close>. On the opening bracket the source executes the
  expression statement \<open>depth == 1\<close>, a comparison whose value is dropped, so \<open>depth\<close>
  stays as it is; on the closing bracket it executes \<open>depth -= 1\<close>.
\<close>

fun remove_matching_brackets_loop :: "char \<Rightarrow> char \<Rightarrow> string \<Rightarrow> string \<Rightarrow> int \<Rightarrow> string" where
  "remove_matching_brackets_loop b e [] result depth = result"
| "remove_matching_brackets_loop b e (c # cs) result depth =
     (if c = b then remove_matching_brackets_loop b e cs result depth
      else if c = e then remove_matching_brackets_loop b e cs result (depth - 1)
      else if depth = 0 then remove_matching_brackets_loop b e cs (result @ [c]) depth
      else remove_matching_brackets_loop b e cs result depth)"

definition remove_matching_brackets :: "string \<Rightarrow> char \<Rightarrow> char \<Rightarrow> string" where
  "remove_matching_brackets s b e = remove_matching_brackets_loop b e s [] 0"

text \<open>\<open>s.strip(chars)\<close> of Python: the characters of \<open>chars\<close> go from both ends.\<close>

definition py_strip :: "string \<Rightarrow> string \<Rightarrow> string" where
  "py_strip chars s =
     rev (dropWhile (\<lambda>c. c \<in> set chars) (rev (dropWhile (\<lambda>c. c \<in> set chars) s)))"

definition cleanup_symbol :: "string \<Rightarrow> string" where
  "cleanup_symbol s =
     (let s1 = remove_matching_brackets s (CHR ''('') (CHR '')'');
          s2 = remove_matching_brackets s1 (CHR ''['') (CHR '']'');
          s3 = remove_matching_brackets s2 (CHR ''<'') (CHR ''>'')
      in py_strip '':'' s3)"

text \<open>
  The class \<open>Symbol\<close>. Its field \<open>_cleaned_symbol\<close> starts as \<open>None\<close> and is only ever
  set by \<open>simplified_symbol\<close>, to \<open>_cleanup_symbol(self.symbol)\<close>; \<open>simplified_symbol\<close>
  returns the cached value when there is one.
\<close>

record Symbol =
  address :: int
  symbol :: string
  cleaned_symbol :: "string option"

definition simplified_symbol :: "Symbol \<Rightarrow> string" where
  "simplified_symbol smb =
     (case cleaned_symbol smb of None \<Rightarrow> cleanup_symbol (symbol smb) | Some c \<Rightarrow> c)"

definition new_Symbol :: "int \<Rightarrow> string \<Rightarrow> Symbol" where
  "new_Symbol a s = \<lparr>address = a, symbol = s, cleaned_symbol = None\<rparr>"

section \<open>Text operations of Python used by the memory-map model\<close>

text \<open>
  Text is a list of characters with code points below 256. \<open>isspace\<close> is the white space
  of \<open>str.strip()\<close> and \<open>str.split()\<close> in that range; \<open>is_linebreak\<close> the line
  boundaries of \<open>str.splitlines()\<close>.
\<close>

definition isspace :: "char \<Rightarrow> bool" where
  "isspace c \<longleftrightarrow> (of_char c :: nat) \<in> set [9, 10, 11, 12, 13, 28, 29, 30, 31, 32, 133, 160]"

definition is_linebreak :: "char \<Rightarrow> bool" where
  "is_linebreak c \<longleftrightarrow> (of_char c :: nat) \<in> set [10, 11, 12, 13, 28, 29, 30, 133]"

definition strip_ws :: "string \<Rightarrow> string" where
  "strip_ws s = rev (dropWhile isspace (rev (dropWhile isspace s)))"

fun splitlines_aux :: "string \<Rightarrow> string \<Rightarrow> string list" where
  "splitlines_aux cur [] = (if cur = [] then [] else [cur])"
| "splitlines_aux cur [c] = (if is_linebreak c then [cur] else [cur @ [c]])"
| "splitlines_aux cur (c # d # cs) =
     (if c = char_of (13 :: nat) \<and> d = char_of (10 :: nat) then cur # splitlines_aux [] cs
      else if is_linebreak c then cur # splitlines_aux [] (d # cs)
      else splitlines_aux (cur @ [c]) (d # cs))"

definition splitlines :: "string \<Rightarrow> string list" where
  "splitlines s = splitlines_aux [] s"

fun split_ws_aux :: "string \<Rightarrow> string \<Rightarrow> string list" where
  "split_ws_aux cur [] = (if cur = [] then [] else [cur])"
| "split_ws_aux cur (c # cs) =
     (if isspace c then (if cur = [] then split_ws_aux [] cs else cur # split_ws_aux [] cs)
      else split_ws_aux (cur @ [c]) cs)"

definition split_ws :: "string \<Rightarrow> string list" where
  "split_ws s = split_ws_aux [] s"

text \<open>\<open>s.split(sep, 1)\<close> for a separator of one character.\<close>

definition split_once :: "char \<Rightarrow> string \<Rightarrow> string list" where
  "split_once sep s =
     (if sep \<in> set s
      then [takeWhile (\<lambda>c. c \<noteq> sep) s, tl (dropWhile (\<lambda>c. c \<noteq> sep) s)]
      else [s])"

definition startswith :: "string \<Rightarrow> string \<Rightarrow> bool" where
  "startswith s p \<longleftrightarrow> take (length p) s = p"

text \<open>
  \<open>Path(p).name\<close> on a POSIX system: the last component of the path, where empty
  components and the components \<open>.\<close> do not count; the empty string when there is none.
\<close>

fun split_char_aux :: "char \<Rightarrow> string \<Rightarrow> string \<Rightarrow> string list" where
  "split_char_aux sep cur [] = [cur]"
| "split_char_aux sep cur (c # cs) =
     (if c = sep then cur # split_char_aux sep [] cs else split_char_aux sep (cur @ [c]) cs)"

definition path_name :: "string \<Rightarrow> string" where
  "path_name p =
     (case rev (filter (\<lambda>q. q \<noteq> [] \<and> q \<noteq> ''.'') (split_char_aux (CHR ''/'') [] p)) of
        [] \<Rightarrow> []
      | q # _ \<Rightarrow> q)"

section \<open>The symbol resolver (utils.py)\<close>

record MappedObject =
  start_address :: int
  end_address :: int
  offset :: int
  obj_path :: string
  is_executable :: bool
  all_symbols_sorted :: "Symbol list"
  all_addrs_sorted :: "int list"
  obj_start_vma :: int

text \<open>
  What the program takes from outside: the text codec; the file system, as the results of
  \<open>obj_path.exists()\<close> and of \<open>os.access(obj_path.absolute(), os.R_OK)\<close>, each a
  truth value or an error (\<open>exists()\<close> raises \<open>PermissionError\<close>, an \<open>OSError\<close>, when
  a directory of the path cannot be searched); the output of \<open>nm\<close> already split into
  symbols (the list \<open>result\<close> of \<open>_find_object_all_symbols_sorted\<close> before it is
  sorted); the result of \<open>_find_object_start_vma_before_linked\<close>; and \<open>int(s, 16)\<close>
  (\<open>None\<close> for \<open>ValueError\<close>).
\<close>

record env =
  decode :: "byte list \<Rightarrow> string option"
  path_exists :: "string \<Rightarrow> error + bool"
  path_readable :: "string \<Rightarrow> error + bool"
  nm_symbols :: "string \<Rightarrow> error + Symbol list"
  start_vma :: "string \<Rightarrow> error + int"
  int16 :: "string \<Rightarrow> int option"

definition find_object_all_symbols_sorted :: "env \<Rightarrow> string \<Rightarrow> error + Symbol list" where
  "find_object_all_symbols_sorted E filepath =
     (case nm_symbols E filepath of
        Inl e \<Rightarrow> Inl e
      | Inr result \<Rightarrow> Inr (sort_key address result))"

definition py_int16 :: "env \<Rightarrow> string \<Rightarrow> error + int" where
  "py_int16 E s = (case int16 E s of None \<Rightarrow> Inl ValueError | Some v \<Rightarrow> Inr v)"

text \<open>
  The body of the loop of \<open>SymbolResolver.__init__\<close> for one line; \<open>objects\<close> is
  \<open>self._objects\<close>. The statements run in the order of the source: \<open>fields[0]\<close> is
  read before the number of fields is tested, and in
  \<open>not obj_path.exists() or not os.access(...)\<close> the access is asked only when the file
  exists; an error of either call ends the construction.
\<close>

definition init_line ::
  "env \<Rightarrow> string \<Rightarrow> bool \<Rightarrow> MappedObject list \<Rightarrow> string \<Rightarrow> error + MappedObject list" where
  "init_line E executable executable_only objects line =
     (if startswith line ''build='' then Inr objects
      else
        let fields = split_ws (strip_ws line) in
        (case fields of
           [] \<Rightarrow> Inl IndexError
         | f0 # _ \<Rightarrow>
             let addr_fileds = split_once (CHR ''-'') f0 in
             if length fields \<noteq> 6 then Inr objects
             else if CHR ''x'' \<notin> set (fields ! 1) then Inr objects
             else
               let is_exe = (path_name (fields ! 5) = path_name executable);
                   path = (if is_exe then executable else fields ! 5)
               in
               if executable_only \<and> \<not> is_exe then Inr objects
               else
                 (case path_exists E path of
                    Inl e \<Rightarrow> Inl e
                  | Inr ex \<Rightarrow>
                      if \<not> ex then Inr objects
                      else
                        (case path_readable E path of
                           Inl e \<Rightarrow> Inl e
                         | Inr rd \<Rightarrow>
                             if \<not> rd then Inr objects
                             else
                               (case find_object_all_symbols_sorted E path of
                                  Inl e \<Rightarrow> Inl e
                                | Inr syms \<Rightarrow>
                                    (case py_int16 E (addr_fileds ! 0) of
                                       Inl e \<Rightarrow> Inl e
                                     | Inr start \<Rightarrow>
                                         if length addr_fileds < 2 then Inl IndexError
                                         else
                                           (case py_int16 E (addr_fileds ! 1) of
                                              Inl e \<Rightarrow> Inl e
                                            | Inr stop \<Rightarrow>
                                                (case py_int16 E (fields ! 2) of
                                                   Inl e \<Rightarrow> Inl e
                                                 | Inr off \<Rightarrow>
                                                     (case start_vma E path of
                                                        Inl e \<Rightarrow> Inl e
                                                      | Inr vma \<Rightarrow>
                                                          Inr (objects @
                                                            [\<lparr>start_address = start,
                                                              end_address = stop,
                                                              offset = off,
                                                              obj_path = path,
                                                              is_executable = is_exe,
                                                              all_symbols_sorted = syms,
                                                              all_addrs_sorted = map address syms,
                                                              obj_start_vma = vma\<rparr>]))))))))))"

fun init_lines ::
  "env \<Rightarrow> string \<Rightarrow> bool \<Rightarrow> MappedObject list \<Rightarrow> string list \<Rightarrow> error + MappedObject list" where
  "init_lines E executable executable_only objects [] = Inr objects"
| "init_lines E executable executable_only objects (line # rest) =
     (case init_line E executable executable_only objects line of
        Inl e \<Rightarrow> Inl e
      | Inr objects' \<Rightarrow> init_lines E executable executable_only objects' rest)"

definition SymbolResolver_init ::
  "env \<Rightarrow> string \<Rightarrow> string \<Rightarrow> bool \<Rightarrow> error + MappedObject list" where
  "SymbolResolver_init E executable mapped executable_only =
     init_lines E executable executable_only [] (splitlines (strip_ws mapped))"

text \<open>
  \<open>bisect.bisect_right(a, x)\<close> of the Python library: the loop on \<open>lo\<close> and \<open>hi\<close>,
  started at \<open>0\<close> and \<open>len(a)\<close>.
\<close>

function bisect_loop :: "int list \<Rightarrow> int \<Rightarrow> nat \<Rightarrow> nat \<Rightarrow> nat" where
  "bisect_loop a x lo hi =
     (if lo < hi then
        (let mid = (lo + hi) div 2 in
         if x < a ! mid then bisect_loop a x lo mid else bisect_loop a x (mid + 1) hi)
      else lo)"
  by pat_completeness auto
termination
  by (relation "measure (\<lambda>(a, x, lo, hi). hi - lo)") auto

declare bisect_loop.simps [simp del]

definition bisect_right :: "int list \<Rightarrow> int \<Rightarrow> nat" where
  "bisect_right a x = bisect_loop a x 0 (length a)"

text \<open>Lines 166 to 168 of utils.py: the text shown for a symbol of an object.\<close>

definition sym_str_of :: "MappedObject \<Rightarrow> bool \<Rightarrow> bool \<Rightarrow> Symbol \<Rightarrow> string" where
  "sym_str_of obj simplify_symbol annotate_libname smb =
     (let sym_str = (if simplify_symbol then simplified_symbol smb else symbol smb)
      in if annotate_libname \<and> \<not> is_executable obj
         then sym_str @ '' ['' @ path_name (obj_path obj) @ '']''
         else sym_str)"

definition addr_before_linked :: "MappedObject \<Rightarrow> int \<Rightarrow> int" where
  "addr_before_linked obj pc = pc - start_address obj + offset obj + obj_start_vma obj"

text \<open>The body of the inner loop of \<open>resolve_symbols_batch\<close>, on the dictionary \<open>result\<close>.\<close>

definition resolve_pc ::
  "MappedObject \<Rightarrow> bool \<Rightarrow> bool \<Rightarrow> (int \<rightharpoonup> string) \<Rightarrow> int \<Rightarrow> (int \<rightharpoonup> string)" where
  "resolve_pc obj simplify_symbol annotate_libname result pc =
     (if \<not> (start_address obj \<le> pc \<and> pc < end_address obj) then result
      else
        let idx = int (bisect_right (all_addrs_sorted obj) (addr_before_linked obj pc)) - 1 in
        if 0 \<le> idx \<and> idx < int (length (all_symbols_sorted obj))
        then result(pc \<mapsto>
               sym_str_of obj simplify_symbol annotate_libname (all_symbols_sorted obj ! nat idx))
        else result)"

text \<open>
  \<open>resolve_symbols_batch\<close>: the outer loop over the objects, the inner one over the set
  \<open>pcs\<close>, given here as the list of its elements in the order of the iteration.
\<close>

definition resolve_symbols_batch ::
  "MappedObject list \<Rightarrow> int list \<Rightarrow> bool \<Rightarrow> bool \<Rightarrow> (int \<rightharpoonup> string)" where
  "resolve_symbols_batch objects ps simplify_symbol annotate_libname =
     fold (\<lambda>obj result. fold (\<lambda>pc r. resolve_pc obj simplify_symbol annotate_libname r pc) ps result)
       objects Map.empty"

section \<open>Folding the stacks (gperf2flamegraph.py)\<close>

text \<open>\<open>pcs_to_symbols.get(pc, _UNKNOWN_SYMBOL)\<close>.\<close>

definition get_symbol :: "(int \<rightharpoonup> string) \<Rightarrow> int \<Rightarrow> string" where
  "get_symbol m pc = (case m pc of None \<Rightarrow> UNKNOWN_SYMBOL | Some s \<Rightarrow> s)"

definition assign_symbols :: "(int \<rightharpoonup> string) \<Rightarrow> Stacktrace \<Rightarrow> Stacktrace" where
  "assign_symbols m st = st\<lparr>symbols := Some (map (get_symbol m) (pcs st))\<rparr>"

text \<open>The \<open>while\<close> loop that pops unknown symbols from the end of the reversed list.\<close>

function trim_unknown :: "string list \<Rightarrow> string list" where
  "trim_unknown syms =
     (if length syms > 1 \<and> last syms = UNKNOWN_SYMBOL then trim_unknown (butlast syms)
      else syms)"
  by pat_completeness auto
termination
  by (relation "measure length") auto

declare trim_unknown.simps [simp del]

fun py_join :: "string \<Rightarrow> string list \<Rightarrow> string" where
  "py_join sep [] = []"
| "py_join sep [x] = x"
| "py_join sep (x # y # ys) = x @ sep @ py_join sep (y # ys)"

text \<open>
  \<open>stacks[key] += w\<close> on a \<open>defaultdict\<close> whose default is \<open>0\<close>. The dictionary is the
  list of its items in the order of their insertion.
\<close>

fun dict_add :: "(string \<times> int) list \<Rightarrow> string \<Rightarrow> int \<Rightarrow> (string \<times> int) list" where
  "dict_add [] k w = [(k, 0 + w)]"
| "dict_add ((k', v) # rest) k w =
     (if k' = k then (k', v + w) # rest else (k', v) # dict_add rest k w)"

definition dict_get :: "(string \<times> int) list \<Rightarrow> string \<Rightarrow> int" where
  "dict_get stacks k = (case map_of stacks k of None \<Rightarrow> 0 | Some v \<Rightarrow> v)"

text \<open>
  The key of a stack trace, lines 108 to 114 of the source: the symbols reversed, the
  unknown ones popped from the end, the rest joined with \<open>;\<close>.
\<close>

definition fold_key :: "string list \<Rightarrow> string" where
  "fold_key syms = py_join '';'' (trim_unknown (rev syms))"

text \<open>The body of the loop that collects the stacks, for one stack trace.\<close>

definition add_stack ::
  "bool \<Rightarrow> int \<Rightarrow> (string \<times> int) list \<Rightarrow> Stacktrace \<Rightarrow> (string \<times> int) list" where
  "add_stack to_microsecond period stacks st =
     (case symbols st of
        None \<Rightarrow> stacks
      | Some syms \<Rightarrow>
          if syms = [] then stacks
          else dict_add stacks (fold_key syms)
                 (if to_microsecond then sample_count st * period else sample_count st))"

definition collect_stacks ::
  "bool \<Rightarrow> int \<Rightarrow> Stacktrace list \<Rightarrow> (string \<times> int) list" where
  "collect_stacks to_microsecond period sts =
     fold (\<lambda>st stacks. add_stack to_microsecond period stacks st) sts []"

record FlamegraphData =
  stacks :: "(string \<times> int) list"
  default_flamegraph_args :: "string list"

text \<open>
  \<open>Gperf2Flamegraph.process\<close> on a fresh object (\<open>symbol_resolver\<close> is \<open>None\<close>); \<open>f\<close> is
  the content of the profile file. The set \<open>all_pcs\<close> is the list of its elements.
\<close>

definition process ::
  "env \<Rightarrow> string \<Rightarrow> bool \<Rightarrow> byte list \<Rightarrow> bool \<Rightarrow> bool \<Rightarrow> bool \<Rightarrow> error + FlamegraphData" where
  "process E executable executable_only f simplify_symbol annotate_libname to_microsecond =
     (case parse_profiler_result (decode E) f of
        Inl e \<Rightarrow> Inl e
      | Inr pr \<Rightarrow>
          (case SymbolResolver_init E executable (proc_mapped_objects pr) executable_only of
             Inl e \<Rightarrow> Inl e
           | Inr objects \<Rightarrow>
               let all_pcs = remdups (concat (map pcs (stacktraces pr)));
                   pcs_to_symbols =
                     resolve_symbols_batch objects all_pcs simplify_symbol annotate_libname;
                   sts = map (assign_symbols pcs_to_symbols) (stacktraces pr)
               in Inr \<lparr>stacks = collect_stacks to_microsecond (sampling_period_in_us pr) sts,
                       default_flamegraph_args =
                         (if to_microsecond then [''--countname'', ''us''] else [])\<rparr>))"

section \<open>The format of the profile, as the specification gives it\<close>

text \<open>
  The byte layout of section 6 of the specification, used to state what the parser does
  on a profile of that layout: a word is eight bytes, least significant first; a record is
  its weight, the number of its program counters and the counters; the trailer is a
  record of weight \<open>0\<close> with one counter; the memory map follows as text.
\<close>

fun pack_n :: "nat \<Rightarrow> int \<Rightarrow> byte list" where
  "pack_n 0 x = []"
| "pack_n (Suc n) x = word_of_int x # pack_n n (x div 256)"

definition pack_Q :: "int \<Rightarrow> byte list" where
  "pack_Q x = pack_n 8 x"

definition pack_slots :: "int list \<Rightarrow> byte list" where
  "pack_slots xs = concat (map pack_Q xs)"

definition slot :: "int \<Rightarrow> bool" where
  "slot x \<longleftrightarrow> 0 \<le> x \<and> x < 2 ^ 64"

definition record_bytes :: "int \<Rightarrow> int list \<Rightarrow> byte list" where
  "record_bytes w ps = pack_slots [w, int (length ps)] @ pack_slots ps"

definition header_bytes :: "int \<Rightarrow> byte list" where
  "header_bytes period = pack_slots [0, 3, 0, period, 0]"

definition trailer_bytes :: "int \<Rightarrow> byte list" where
  "trailer_bytes pc = record_bytes 0 [pc]"

definition samples_bytes :: "(int \<times> int list) list \<Rightarrow> byte list" where
  "samples_bytes ss = concat (map (\<lambda>(w, ps). record_bytes w ps) ss)"

definition valid_sample :: "int \<times> int list \<Rightarrow> bool" where
  "valid_sample s \<longleftrightarrow>
     (case s of (w, ps) \<Rightarrow>
        0 < w \<and> slot w \<and> slot (int (length ps)) \<and> list_all slot ps)"

definition sample_of :: "int \<times> int list \<Rightarrow> Stacktrace" where
  "sample_of s = (case s of (w, ps) \<Rightarrow> \<lparr>sample_count = w, pcs = ps, symbols = None\<rparr>)"

definition profile_bytes ::
  "int \<Rightarrow> (int \<times> int list) list \<Rightarrow> int \<Rightarrow> byte list \<Rightarrow> byte list" where
  "profile_bytes period ss pc txt =
     header_bytes period @ samples_bytes ss @ trailer_bytes pc @ txt"

text \<open>A codec for plain ASCII text, on which every codec of the library agrees.\<close>

definition ascii_decode :: "byte list \<Rightarrow> string option" where
  "ascii_decode bs =
     (if list_all (\<lambda>b. unat b < 128) bs then Some (map (\<lambda>b. char_of (unat b)) bs) else None)"

section \<open>The resolution of a counter in one region, as the specification gives it\<close>

text \<open>
  Section 4.4 of the specification, for one region: the counter is in the region when
  \<open>start \<le> pc < end\<close>; the symbol is the rightmost entry of the table whose address is at
  most the translated address, and there is none when no entry is; \<open>region_symbol\<close> is the
  text the region gives for the counter, if any. \<open>sorted_object\<close> is what
  \<open>SymbolResolver.__init__\<close> establishes for each object it builds: the addresses are
  those of the symbols, in ascending order.
\<close>

definition in_region :: "MappedObject \<Rightarrow> int \<Rightarrow> bool" where
  "in_region obj pc \<longleftrightarrow> start_address obj \<le> pc \<and> pc < end_address obj"

definition rightmost_symbol :: "MappedObject \<Rightarrow> int \<Rightarrow> Symbol option" where
  "rightmost_symbol obj target =
     (case filter (\<lambda>s. address s \<le> target) (all_symbols_sorted obj) of
        [] \<Rightarrow> None
      | x # xs \<Rightarrow> Some (last (x # xs)))"

definition region_symbol :: "MappedObject \<Rightarrow> bool \<Rightarrow> bool \<Rightarrow> int \<Rightarrow> string option" where
  "region_symbol obj simplify_symbol annotate_libname pc =
     (if in_region obj pc
      then map_option (sym_str_of obj simplify_symbol annotate_libname)
             (rightmost_symbol obj (addr_before_linked obj pc))
      else None)"

definition sorted_object :: "MappedObject \<Rightarrow> bool" where
  "sorted_object obj \<longleftrightarrow>
     all_addrs_sorted obj = map address (all_symbols_sorted obj) \<and> sorted (all_addrs_sorted obj)"

text \<open>
  Regions for concrete runs: \<open>region_f\<close>, \<open>region_g\<close> and \<open>region_g50\<close> cover the
  same addresses and hold one symbol each, \<open>region_g50\<close> at the address \<open>50\<close>;
  \<open>region_h\<close> holds symbols at \<open>100\<close>, \<open>200\<close> and \<open>300\<close>.
\<close>

definition region_f :: MappedObject where
  "region_f =
     \<lparr>start_address = 0, end_address = 100, offset = 0, obj_path = ''/bin/a'',
      is_executable = True, all_symbols_sorted = [new_Symbol 0 ''f''],
      all_addrs_sorted = [0], obj_start_vma = 0\<rparr>"

definition region_g :: MappedObject where
  "region_g =
     \<lparr>start_address = 0, end_address = 100, offset = 0, obj_path = ''/lib/b.so'',
      is_executable = False, all_symbols_sorted = [new_Symbol 0 ''g''],
      all_addrs_sorted = [0], obj_start_vma = 0\<rparr>"

definition region_g50 :: MappedObject where
  "region_g50 =
     \<lparr>start_address = 0, end_address = 100, offset = 0, obj_path = ''/lib/b.so'',
      is_executable = False, all_symbols_sorted = [new_Symbol 50 ''g''],
      all_addrs_sorted = [50], obj_start_vma = 0\<rparr>"

definition region_h :: MappedObject where
  "region_h =
     \<lparr>start_address = 1000, end_address = 2000, offset = 0, obj_path = ''/bin/a'',
      is_executable = True,
      all_symbols_sorted = [new_Symbol 100 ''s100'', new_Symbol 200 ''s200'', new_Symbol 300 ''s300''],
      all_addrs_sorted = [100, 200, 300], obj_start_vma = 0\<rparr>"

text \<open>
  A memory map of two lines with an empty line between them; the first line is a
  mapping that is not executable.
\<close>

definition maps_with_empty_line :: string where
  "maps_with_empty_line =
     ''00400000-00401000 r--p 00000000 08:01 1 /bin/a'' @ [CHR 0x0A] @ [CHR 0x0A] @
     ''00401000-00402000 r-xp 00001000 08:01 1 /bin/a''"

section \<open>Facts about the parser\<close>

lemma length_pack_n: "length (pack_n n x) = n"
  by (induction n arbitrary: x) auto

lemma unpack_pack_n: "unpack_Q (pack_n n x) = x mod 256 ^ n"
proof (induction n arbitrary: x)
  case 0
  then show ?case by simp
next
  case (Suc n)
  have "uint (word_of_int x :: byte) = x mod 256"
    by (simp add: uint_word_of_int)
  then have "unpack_Q (pack_n (Suc n) x) = x mod 256 + 256 * ((x div 256) mod 256 ^ n)"
    using Suc by simp
  also have "\<dots> = x mod 256 ^ Suc n"
    using zmod_zmult2_eq [of "256 ^ n" x 256] by simp
  finally show ?case .
qed

lemma length_pack_Q: "length (pack_Q x) = 8"
  by (simp add: pack_Q_def length_pack_n)

lemma unpack_pack_Q: "slot x \<Longrightarrow> unpack_Q (pack_Q x) = x"
  by (simp add: pack_Q_def unpack_pack_n slot_def)

lemma length_pack_slots: "length (pack_slots xs) = 8 * length xs"
  by (induction xs) (auto simp: pack_slots_def length_pack_Q)

lemma pack_slots_Cons: "pack_slots (x # xs) = pack_Q x @ pack_slots xs"
  by (simp add: pack_slots_def)

lemma unpack_slots_pack:
  "list_all slot xs \<Longrightarrow> unpack_slots (length xs) (pack_slots xs @ rest) = xs"
  by (induction xs) (auto simp: pack_slots_Cons length_pack_Q unpack_pack_Q)

lemma read_slots_pack:
  "list_all slot xs \<Longrightarrow> n = length xs \<Longrightarrow>
     read_slots n (pack_slots xs @ rest) = Inr (xs, rest)"
  using unpack_slots_pack [of xs "[]"]
  by (simp add: read_slots_def length_pack_slots)

lemma length_record_bytes: "length (record_bytes w ps) = 16 + 8 * length ps"
  by (simp add: record_bytes_def length_pack_slots)

lemma length_header_bytes: "length (header_bytes p) = 40"
  by (simp add: header_bytes_def length_pack_slots)

lemma read_records_unfold:
  assumes "slot w" "slot n"
  shows "read_records (pack_slots [w, n] @ f) acc =
     (case read_slots (nat n) f of
        Inl e \<Rightarrow> Inl e
      | Inr (ps, f2) \<Rightarrow>
          if w = 0 then
            (if n = 1 then Inr (acc, f2) else Inl (AssertionError ''Invalid trailer''))
          else read_records f2 (acc @ [\<lparr>sample_count = w, pcs = ps, symbols = None\<rparr>]))"
proof -
  have "read_slots 2 (pack_slots [w, n] @ f) = Inr ([w, n], f)"
    using assms by (intro read_slots_pack) auto
  then show ?thesis
    by (subst read_records.simps) simp
qed

lemma read_records_record:
  assumes "slot w" "slot (int (length ps))" "list_all slot ps"
  shows "read_records (record_bytes w ps @ f) acc =
     (if w = 0 then
        (if length ps = 1 then Inr (acc, f) else Inl (AssertionError ''Invalid trailer''))
      else read_records f (acc @ [\<lparr>sample_count = w, pcs = ps, symbols = None\<rparr>]))"
proof -
  have "read_slots (nat (int (length ps))) (pack_slots ps @ f) = Inr (ps, f)"
    using assms(3) by (intro read_slots_pack) auto
  then show ?thesis
    using read_records_unfold [OF assms(1,2), of "pack_slots ps @ f" acc]
    by (simp add: record_bytes_def)
qed

lemma read_records_short:
  "length f < 16 \<Longrightarrow> read_records f acc = Inl StructError"
  by (subst read_records.simps) (simp add: read_slots_def)

lemma read_records_samples:
  "list_all valid_sample ss \<Longrightarrow>
     read_records (samples_bytes ss @ f) acc = read_records f (acc @ map sample_of ss)"
proof (induction ss arbitrary: acc)
  case Nil
  then show ?case by (simp add: samples_bytes_def)
next
  case (Cons s ss)
  obtain w ps where s: "s = (w, ps)" by (cases s)
  from Cons.prems s have v: "0 < w" "slot w" "slot (int (length ps))" "list_all slot ps"
    by (auto simp: valid_sample_def)
  have "samples_bytes (s # ss) @ f = record_bytes w ps @ (samples_bytes ss @ f)"
    by (simp add: samples_bytes_def s)
  then have "read_records (samples_bytes (s # ss) @ f) acc =
      read_records (samples_bytes ss @ f) (acc @ [sample_of s])"
    using read_records_record [OF v(2,3,4)] v(1) by (simp add: sample_of_def s)
  also have "\<dots> = read_records f ((acc @ [sample_of s]) @ map sample_of ss)"
    using Cons.prems by (intro Cons.IH) simp
  finally show ?case by simp
qed

lemma read_records_trailer:
  "slot pc \<Longrightarrow> read_records (trailer_bytes pc @ f) acc = Inr (acc, f)"
  using read_records_record [of 0 "[pc]" f acc]
  by (simp add: trailer_bytes_def slot_def)

lemma parse_header:
  assumes "slot c" "slot s" "slot v" "slot p" "slot pad"
  shows "parse_profiler_result dec (pack_slots [c, s, v, p, pad] @ f) =
     (if \<not> (c = 0 \<and> s = 3 \<and> v = 0 \<and> pad = 0)
      then Inl (AssertionError ''Invalid header, this profiler result is not valid'')
      else (case read_records f [] of
              Inl e \<Rightarrow> Inl e
            | Inr (sts, f2) \<Rightarrow>
                (case dec f2 of
                   None \<Rightarrow> Inl UnicodeDecodeError
                 | Some txt \<Rightarrow>
                     Inr \<lparr>sampling_period_in_us = p, proc_mapped_objects = txt,
                          stacktraces = sts\<rparr>)))"
proof -
  have "read_slots 5 (pack_slots [c, s, v, p, pad] @ f) = Inr ([c, s, v, p, pad], f)"
    using assms by (intro read_slots_pack) auto
  then show ?thesis
    by (simp add: parse_profiler_result_def)
qed

lemma parse_profile_bytes:
  assumes "slot period" "list_all valid_sample ss" "slot pc"
  shows "parse_profiler_result dec (profile_bytes period ss pc txt) =
     (case dec txt of
        None \<Rightarrow> Inl UnicodeDecodeError
      | Some t \<Rightarrow> Inr \<lparr>sampling_period_in_us = period, proc_mapped_objects = t,
                       stacktraces = map sample_of ss\<rparr>)"
proof -
  have "read_records (samples_bytes ss @ trailer_bytes pc @ txt) [] =
      Inr (map sample_of ss, txt)"
    using read_records_samples [OF assms(2), of "trailer_bytes pc @ txt" "[]"]
      read_records_trailer [OF assms(3)]
    by simp
  then show ?thesis
    using parse_header [of 0 3 0 period 0 dec "samples_bytes ss @ trailer_bytes pc @ txt"]
      assms(1)
    by (simp add: profile_bytes_def header_bytes_def slot_def)
qed

lemma read_records_errors:
  "read_records f acc = Inl e \<Longrightarrow>
     e = StructError \<or> e = AssertionError ''Invalid trailer'' \<or> e = ValueError"
proof (induction f acc rule: read_records.induct)
  case (1 f acc)
  from "1.prems" show ?case
    apply (subst (asm) read_records.simps)
    apply (auto split: sum.splits list.splits if_splits prod.splits
        simp: read_slots_def dest: "1.IH" [rotated -1])
    done
qed

lemma read_records_truncated_record:
  assumes "slot w" "slot (int (length ps))" "k < length (record_bytes w ps)"
  shows "read_records (take k (record_bytes w ps @ f)) acc = Inl StructError"
proof (cases "k < 16")
  case True
  then show ?thesis by (intro read_records_short) simp
next
  case False
  then have "take k (record_bytes w ps @ f) =
      pack_slots [w, int (length ps)] @ take (k - 16) (pack_slots ps @ f)"
    by (simp add: record_bytes_def length_pack_slots)
  moreover have "read_slots (nat (int (length ps))) (take (k - 16) (pack_slots ps @ f)) =
      Inl StructError"
    using assms(3) False by (simp add: read_slots_def length_record_bytes)
  ultimately show ?thesis
    using read_records_unfold [OF assms(1,2)] by simp
qed

lemma read_records_truncated:
  assumes "list_all valid_sample ss" "slot pc"
    and "k < length (samples_bytes ss @ trailer_bytes pc)"
  shows "read_records (take k (samples_bytes ss @ trailer_bytes pc)) acc = Inl StructError"
  using assms
proof (induction ss arbitrary: k acc)
  case Nil
  then show ?case
    using read_records_truncated_record [of 0 "[pc]" k "[]" acc]
    by (simp add: samples_bytes_def trailer_bytes_def slot_def)
next
  case (Cons s ss)
  obtain w ps where s: "s = (w, ps)" by (cases s)
  from Cons.prems s have v: "0 < w" "slot w" "slot (int (length ps))" "list_all slot ps"
    by (auto simp: valid_sample_def)
  let ?rest = "samples_bytes ss @ trailer_bytes pc"
  have eq: "samples_bytes (s # ss) @ trailer_bytes pc = record_bytes w ps @ ?rest"
    by (simp add: samples_bytes_def s)
  show ?case
  proof (cases "k < length (record_bytes w ps)")
    case True
    then show ?thesis
      using read_records_truncated_record [OF v(2,3)] by (simp only: eq)
  next
    case False
    then have t: "take k (record_bytes w ps @ ?rest) =
        record_bytes w ps @ take (k - length (record_bytes w ps)) ?rest"
      by simp
    have "k - length (record_bytes w ps) < length ?rest"
      using Cons.prems(3) False by (simp add: eq)
    then have "read_records (take (k - length (record_bytes w ps)) ?rest)
        (acc @ [\<lparr>sample_count = w, pcs = ps, symbols = None\<rparr>]) = Inl StructError"
      using Cons.prems by (intro Cons.IH) simp_all
    moreover have "read_records
          (record_bytes w ps @ take (k - length (record_bytes w ps)) ?rest) acc =
        read_records (take (k - length (record_bytes w ps)) ?rest)
          (acc @ [\<lparr>sample_count = w, pcs = ps, symbols = None\<rparr>])"
      using read_records_record [OF v(2,3,4)] v(1) by simp
    ultimately show ?thesis
      by (simp only: eq t)
  qed
qed

lemma parse_truncated:
  assumes "slot period" "list_all valid_sample ss" "slot pc"
    and "k < length (header_bytes period @ samples_bytes ss @ trailer_bytes pc)"
  shows "parse_profiler_result dec
           (take k (header_bytes period @ samples_bytes ss @ trailer_bytes pc)) =
         Inl StructError"
proof (cases "k < 40")
  case True
  then show ?thesis
    by (simp add: parse_profiler_result_def read_slots_def length_header_bytes)
next
  case False
  let ?body = "samples_bytes ss @ trailer_bytes pc"
  from False have t: "take k (header_bytes period @ ?body) =
      pack_slots [0, 3, 0, period, 0] @ take (k - 40) ?body"
    by (simp add: length_header_bytes) (simp add: header_bytes_def)
  have "k - 40 < length ?body"
    using assms(4) False by (simp add: length_header_bytes)
  then have "read_records (take (k - 40) ?body) [] = Inl StructError"
    using assms(2,3) by (intro read_records_truncated)
  then show ?thesis
    using parse_header [of 0 3 0 period 0 dec "take (k - 40) ?body"] assms(1) t
    by (simp add: slot_def)
qed

lemma parse_bad_trailer:
  assumes "slot period" "list_all valid_sample ss" "slot n" "n \<noteq> 1"
  shows "parse_profiler_result dec
           (header_bytes period @ samples_bytes ss @ pack_slots [0, n] @ rest) =
         Inl (if length rest < 8 * nat n then StructError
              else AssertionError ''Invalid trailer'')"
proof -
  have "read_records (pack_slots [0, n] @ rest) (map sample_of ss) =
      Inl (if length rest < 8 * nat n then StructError else AssertionError ''Invalid trailer'')"
    using read_records_unfold [of 0 n rest "map sample_of ss"] assms(3,4)
    by (simp add: slot_def read_slots_def)
  then have "read_records (samples_bytes ss @ pack_slots [0, n] @ rest) [] =
      Inl (if length rest < 8 * nat n then StructError else AssertionError ''Invalid trailer'')"
    using read_records_samples [OF assms(2), of "pack_slots [0, n] @ rest" "[]"] by simp
  then show ?thesis
    using parse_header [of 0 3 0 period 0 dec
        "samples_bytes ss @ pack_slots [0, n] @ rest"] assms(1)
    by (simp add: header_bytes_def slot_def)
qed

text \<open>
  Claim C3, as amended. On a profile that starts with five words \<open>c, s, v, p, pad\<close>, the
  parser fails with the assertion error of the header exactly when one of
  \<open>c = 0\<close>, \<open>s = 3\<close>, \<open>v = 0\<close>, \<open>pad = 0\<close> is violated, whatever follows the
  header. The sampling period \<open>p\<close> is not tested.
\<close>

theorem header_error_iff:
  assumes "slot c" "slot s" "slot v" "slot p" "slot pad"
  shows "parse_profiler_result dec (pack_slots [c, s, v, p, pad] @ f) =
           Inl (AssertionError ''Invalid header, this profiler result is not valid'')
         \<longleftrightarrow> \<not> (c = 0 \<and> s = 3 \<and> v = 0 \<and> pad = 0)"
proof (cases "c = 0 \<and> s = 3 \<and> v = 0 \<and> pad = 0")
  case False
  then show ?thesis using parse_header [OF assms, of dec f] by simp
next
  case True
  have "parse_profiler_result dec (pack_slots [c, s, v, p, pad] @ f) \<noteq>
      Inl (AssertionError ''Invalid header, this profiler result is not valid'')"
  proof (cases "read_records f []")
    case (Inl e)
    with read_records_errors [OF Inl] True show ?thesis
      using parse_header [OF assms, of dec f] by auto
  next
    case (Inr r)
    with True show ?thesis
      using parse_header [OF assms, of dec f] by (auto split: prod.splits option.splits)
  qed
  with True show ?thesis by simp
qed

theorem header_error_iff_witness:
  "slot 0 \<and> slot 3 \<and> slot 1 \<and> slot 1000 \<and>
   parse_profiler_result ascii_decode (pack_slots [0, 3, 1, 1000, 0] @ trailer_bytes 0) =
     Inl (AssertionError ''Invalid header, this profiler result is not valid'')"
  using header_error_iff [of 0 3 1 1000 0 ascii_decode "trailer_bytes 0"]
  by (simp add: slot_def)

text \<open>
  The header \<open>0, 3, 0, 0, 0\<close>, whose sampling period is \<open>0\<close>, followed by the trailer:
  the parser returns a result.
\<close>

theorem header_zero_period_accepted:
  "parse_profiler_result ascii_decode (pack_slots [0, 3, 0, 0, 0] @ trailer_bytes 0) =
     Inr \<lparr>sampling_period_in_us = 0, proc_mapped_objects = [], stacktraces = []\<rparr>"
  using parse_profile_bytes [of 0 "[]" 0 ascii_decode "[]"]
  by (simp add: slot_def profile_bytes_def header_bytes_def samples_bytes_def ascii_decode_def)

text \<open>
  Claim C4. On a profile of the layout of the format (header, records of positive weight,
  trailer, text), the parser returns the records before the trailer, in their order and
  without the trailer, and hands all the bytes after the trailer to the codec; with no
  record before the trailer the list of samples is empty.
\<close>

theorem parse_stops_at_trailer:
  assumes "slot period" "list_all valid_sample ss" "slot pc" "dec mm = Some t"
  shows "parse_profiler_result dec (profile_bytes period ss pc mm) =
           Inr \<lparr>sampling_period_in_us = period, proc_mapped_objects = t,
                stacktraces = map sample_of ss\<rparr>
         \<and> parse_profiler_result dec (profile_bytes period [] pc mm) =
           Inr \<lparr>sampling_period_in_us = period, proc_mapped_objects = t, stacktraces = []\<rparr>"
  using parse_profile_bytes [OF assms(1,2,3), of dec mm]
    parse_profile_bytes [OF assms(1) _ assms(3), of "[]" dec mm] assms(4)
  by simp

theorem parse_stops_at_trailer_witness:
  "parse_profiler_result ascii_decode (profile_bytes 1000 [(5, [7, 8]), (2, [])] 9 [104, 105]) =
     Inr \<lparr>sampling_period_in_us = 1000, proc_mapped_objects = ''hi'',
          stacktraces = [\<lparr>sample_count = 5, pcs = [7, 8], symbols = None\<rparr>,
                         \<lparr>sample_count = 2, pcs = [], symbols = None\<rparr>]\<rparr>
   \<and> parse_profiler_result ascii_decode (profile_bytes 1000 [] 9 []) =
     Inr \<lparr>sampling_period_in_us = 1000, proc_mapped_objects = [], stacktraces = []\<rparr>"
  using parse_stops_at_trailer [of 1000 "[(5, [7, 8]), (2, [])]" 9 ascii_decode "[104, 105]" "''hi''"]
    parse_stops_at_trailer [of 1000 "[]" 9 ascii_decode "[]" "[]"]
  by (simp add: slot_def valid_sample_def sample_of_def ascii_decode_def char_of_eq_iff)

text \<open>
  Claim C5. After a header and any records of positive weight, a record of weight \<open>0\<close>
  that announces a number of counters other than \<open>1\<close> makes the parser fail: with the
  assertion error of the trailer when the announced words are there, with the error of
  the short read when they are not. And every proper prefix of the header, the records
  and the trailer of a profile makes the parser fail with the error of the short read. In
  both cases the parser returns an error and no result.
\<close>

theorem parse_fails_on_bad_trailer_and_truncation:
  assumes "slot period" "list_all valid_sample ss"
  shows "(slot n \<and> n \<noteq> 1 \<longrightarrow>
            parse_profiler_result dec
              (header_bytes period @ samples_bytes ss @ pack_slots [0, n] @ rest) =
            Inl (if length rest < 8 * nat n then StructError
                 else AssertionError ''Invalid trailer''))
       \<and> (slot pc \<and> k < length (header_bytes period @ samples_bytes ss @ trailer_bytes pc) \<longrightarrow>
            parse_profiler_result dec
              (take k (header_bytes period @ samples_bytes ss @ trailer_bytes pc)) =
            Inl StructError)"
  using parse_bad_trailer [OF assms, of n dec rest] parse_truncated [OF assms, of pc k dec]
  by simp

theorem parse_fails_on_bad_trailer_and_truncation_witness:
  "parse_profiler_result ascii_decode
     (header_bytes 1000 @ samples_bytes [(5, [7, 8])] @ pack_slots [0, 2] @ pack_slots [3, 4]) =
     Inl (AssertionError ''Invalid trailer'')
   \<and> parse_profiler_result ascii_decode
     (header_bytes 1000 @ samples_bytes [(5, [7, 8])] @ pack_slots [0, 0]) =
     Inl (AssertionError ''Invalid trailer'')
   \<and> parse_profiler_result ascii_decode
     (take 95 (header_bytes 1000 @ samples_bytes [(5, [7, 8])] @ trailer_bytes 9)) =
     Inl StructError"
  using parse_fails_on_bad_trailer_and_truncation
      [of 1000 "[(5, [7, 8])]" 2 ascii_decode "pack_slots [3, 4]" 9 95]
    parse_fails_on_bad_trailer_and_truncation
      [of 1000 "[(5, [7, 8])]" 0 ascii_decode "[]" 9 95]
  by (simp add: slot_def valid_sample_def length_pack_slots length_header_bytes
      length_record_bytes samples_bytes_def trailer_bytes_def)

section \<open>Facts about the folding of the stacks\<close>

lemma trim_unknown_closed:
  "trim_unknown r =
     (if dropWhile (\<lambda>s. s = UNKNOWN_SYMBOL) (rev r) = [] then take 1 r
      else rev (dropWhile (\<lambda>s. s = UNKNOWN_SYMBOL) (rev r)))"
proof (induction r rule: trim_unknown.induct)
  case (1 syms)
  show ?case
  proof (cases "length syms > 1 \<and> last syms = UNKNOWN_SYMBOL")
    case True
    then have ne: "syms \<noteq> []" by auto
    have r: "rev syms = UNKNOWN_SYMBOL # rev (butlast syms)"
      using True ne by (metis append_butlast_last_id rev.simps(2) rev_rev_ident rev_swap)
    have t: "take 1 (butlast syms) = take 1 syms"
      using True by (cases syms) (auto simp: take_Suc_conv_app_nth)
    have d: "dropWhile (\<lambda>s. s = UNKNOWN_SYMBOL) (rev syms) =
        dropWhile (\<lambda>s. s = UNKNOWN_SYMBOL) (rev (butlast syms))"
      by (subst r) simp
    have "trim_unknown syms = trim_unknown (butlast syms)"
      using True by (subst trim_unknown.simps) simp
    also note "1.IH" [OF True]
    finally show ?thesis
      by (simp only: d t)
  next
    case False
    then have eq: "trim_unknown syms = syms"
      by (subst trim_unknown.simps) auto
    show ?thesis
    proof (cases syms rule: rev_cases)
      case Nil
      then show ?thesis using eq by simp
    next
      case (snoc ys y)
      then show ?thesis using eq False by (cases ys) auto
    qed
  qed
qed

lemma dict_get_dict_add:
  "dict_get (dict_add d k w) k' = dict_get d k' + (if k' = k then w else 0)"
  by (induction d k w rule: dict_add.induct) (auto simp: dict_get_def)

lemma add_stack_no_symbols:
  "pcs st = [] \<Longrightarrow> add_stack u period d (assign_symbols m st) = d"
  by (simp add: add_stack_def assign_symbols_def)

lemma collect_stacks_skip:
  assumes "pcs st = []"
  shows "fold (\<lambda>st d. add_stack u period d st) (map (assign_symbols m) (xs @ [st] @ ys)) d0 =
         fold (\<lambda>st d. add_stack u period d st) (map (assign_symbols m) (xs @ ys)) d0"
  using add_stack_no_symbols [OF assms] by simp

lemma py_join_snoc:
  "xs \<noteq> [] \<Longrightarrow> py_join sep (xs @ [y]) = py_join sep xs @ sep @ y"
  by (induction sep xs rule: py_join.induct) auto

lemma py_join_closed:
  "xs \<noteq> [] \<Longrightarrow> py_join sep xs = hd xs @ concat (map (\<lambda>x. sep @ x) (tl xs))"
  by (induction sep xs rule: py_join.induct) auto

text \<open>
  Claim C6. For a sample with at least one symbol, the key is the join with \<open>;\<close> of the
  reversed list after the loop has removed unknown symbols from its end. In terms of the
  list as captured, leaf first: the unknown symbols at its front are dropped and the rest
  is reversed; when every symbol is unknown, one unknown symbol is kept, so the list that
  is joined is never empty. The join puts the separator between any two neighbours and
  nowhere else: the join of one text is the text, and a further text adds the separator
  and the text at the end. So the key is the last symbol of what is left of the captured
  list, followed by \<open>;\<close> and a symbol for each of the others, from the end to the
  front. Three symbols none of which is unknown give the key \<open>sC;sB;sA\<close>.
\<close>

theorem fold_key_reverses_and_trims:
  assumes "syms \<noteq> []"
  shows "fold_key syms = py_join '';'' (trim_unknown (rev syms))
       \<and> trim_unknown (rev syms) =
           (if dropWhile (\<lambda>s. s = UNKNOWN_SYMBOL) syms = [] then [UNKNOWN_SYMBOL]
            else rev (dropWhile (\<lambda>s. s = UNKNOWN_SYMBOL) syms))
       \<and> trim_unknown (rev syms) \<noteq> []
       \<and> py_join sep [y] = y
       \<and> (xs \<noteq> [] \<longrightarrow> py_join sep (xs @ [y]) = py_join sep xs @ sep @ y)
       \<and> fold_key syms =
           (if dropWhile (\<lambda>s. s = UNKNOWN_SYMBOL) syms = [] then UNKNOWN_SYMBOL
            else last (dropWhile (\<lambda>s. s = UNKNOWN_SYMBOL) syms) @
                 concat (map (\<lambda>x. '';'' @ x)
                   (rev (butlast (dropWhile (\<lambda>s. s = UNKNOWN_SYMBOL) syms)))))
       \<and> (sA \<noteq> UNKNOWN_SYMBOL \<and> sB \<noteq> UNKNOWN_SYMBOL \<and> sC \<noteq> UNKNOWN_SYMBOL \<longrightarrow>
            fold_key [sA, sB, sC] = sC @ '';'' @ sB @ '';'' @ sA)"
proof -
  let ?d = "dropWhile (\<lambda>s. s = UNKNOWN_SYMBOL) syms"
  have all: "take 1 (rev syms) = [UNKNOWN_SYMBOL]" if "?d = []"
  proof -
    from that have "\<forall>s\<in>set syms. s = UNKNOWN_SYMBOL"
      by (simp add: dropWhile_eq_Nil_conv)
    with assms have "hd (rev syms) = UNKNOWN_SYMBOL"
      by (simp add: hd_rev)
    with assms show ?thesis by (cases "rev syms") auto
  qed
  have closed: "trim_unknown (rev syms) = (if ?d = [] then [UNKNOWN_SYMBOL] else rev ?d)"
    using trim_unknown_closed [of "rev syms"] all by simp
  have key: "fold_key syms =
      (if ?d = [] then UNKNOWN_SYMBOL
       else last ?d @ concat (map (\<lambda>x. '';'' @ x) (rev (butlast ?d))))"
  proof (cases "?d = []")
    case True
    then show ?thesis using closed by (simp add: fold_key_def)
  next
    case False
    have j: "py_join '';'' (rev ?d) =
        hd (rev ?d) @ concat (map (\<lambda>x. '';'' @ x) (tl (rev ?d)))"
      by (rule py_join_closed) (use False in simp)
    have t: "tl (rev ?d) = rev (butlast ?d)"
      using butlast_rev [of "rev ?d"] by simp
    have h: "hd (rev ?d) = last ?d"
      using False by (simp add: hd_rev)
    have "fold_key syms = py_join '';'' (rev ?d)"
      by (simp only: fold_key_def closed False if_False)
    then show ?thesis
      by (simp only: j t h False if_False)
  qed
  have three: "fold_key [sA, sB, sC] = sC @ '';'' @ sB @ '';'' @ sA"
    if "sA \<noteq> UNKNOWN_SYMBOL"
    using that trim_unknown_closed [of "rev [sA, sB, sC]"] by (simp add: fold_key_def)
  have snoc: "xs \<noteq> [] \<longrightarrow> py_join sep (xs @ [y]) = py_join sep xs @ sep @ y"
    by (simp add: py_join_snoc)
  from closed three key snoc show ?thesis
    by (simp add: fold_key_def)
qed

theorem fold_key_reverses_and_trims_witness:
  "fold_key [''???'', ''???'', ''f'', ''main''] = ''main;f''
   \<and> fold_key [''???'', ''???''] = ''???''
   \<and> fold_key [''g'', ''???'', ''main''] = ''main;???;g''
   \<and> fold_key [''a'', ''b'', ''c'', ''d'', ''e''] = ''e;d;c;b;a''"
  using fold_key_reverses_and_trims [of "[''???'', ''???'', ''f'', ''main'']"]
    fold_key_reverses_and_trims [of "[''???'', ''???'']"]
    fold_key_reverses_and_trims [of "[''g'', ''???'', ''main'']"]
    fold_key_reverses_and_trims [of "[''a'', ''b'', ''c'', ''d'', ''e'']"]
  by (simp add: UNKNOWN_SYMBOL_def)

lemma fold_key_f_main: "fold_key [''f'', ''main''] = ''main;f''"
  by (simp add: fold_key_def trim_unknown_closed UNKNOWN_SYMBOL_def)

lemma dict_get_Nil: "dict_get [] k = 0"
  by (simp add: dict_get_def)

lemma dict_get_Cons: "dict_get ((k', v) # d) k = (if k' = k then v else dict_get d k)"
  by (simp add: dict_get_def)

lemma process_skips_empty_record:
  assumes "slot period" "list_all valid_sample pre" "list_all valid_sample post" "slot pc"
    and "0 < w" "slot w"
  shows "process E exe eo (profile_bytes period (pre @ [(w, [])] @ post) pc mm) s a u =
         process E exe eo (profile_bytes period (pre @ post) pc mm) s a u"
proof -
  have v1: "list_all valid_sample (pre @ [(w, [])] @ post)"
    using assms by (simp add: valid_sample_def slot_def)
  have v2: "list_all valid_sample (pre @ post)"
    using assms by simp
  have h: "pcs (sample_of (w, [])) = []"
    by (simp add: sample_of_def)
  show ?thesis
    unfolding process_def
      parse_profile_bytes [OF assms(1) v1 assms(4)] parse_profile_bytes [OF assms(1) v2 assms(4)]
    by (simp add: h Let_def collect_stacks_def add_stack_no_symbols
        split: option.splits sum.splits)
qed

text \<open>
  Claim C9. Folding a sample that has symbols adds to the entry of its key the weight of
  the sample, or the weight times the sampling period when microseconds are asked for,
  and leaves every other entry as it is. With a period of \<open>1000\<close> a sample of weight \<open>5\<close>
  adds \<open>5\<close>, respectively \<open>5000\<close>.
\<close>

theorem add_stack_weight:
  assumes "symbols st = Some syms" "syms \<noteq> []"
  shows "dict_get (add_stack to_us period d st) k =
           dict_get d k +
           (if k = fold_key syms
            then (if to_us then sample_count st * period else sample_count st)
            else 0)"
  using assms by (simp add: add_stack_def dict_get_dict_add)

theorem add_stack_weight_witness:
  "dict_get (add_stack False 1000 []
      \<lparr>sample_count = 5, pcs = [1, 2], symbols = Some [''f'', ''main'']\<rparr>) ''main;f'' = 5
   \<and> dict_get (add_stack True 1000 []
      \<lparr>sample_count = 5, pcs = [1, 2], symbols = Some [''f'', ''main'']\<rparr>) ''main;f'' = 5000
   \<and> dict_get (add_stack True 1000 [(''main;f'', 7)]
      \<lparr>sample_count = 5, pcs = [1, 2], symbols = Some [''f'', ''main'']\<rparr>) ''main;f'' = 5007"
  using add_stack_weight [of "\<lparr>sample_count = 5, pcs = [1, 2], symbols = Some [''f'', ''main'']\<rparr>"
      "[''f'', ''main'']" False 1000 "[]" "''main;f''"]
    add_stack_weight [of "\<lparr>sample_count = 5, pcs = [1, 2], symbols = Some [''f'', ''main'']\<rparr>"
      "[''f'', ''main'']" True 1000 "[]" "''main;f''"]
    add_stack_weight [of "\<lparr>sample_count = 5, pcs = [1, 2], symbols = Some [''f'', ''main'']\<rparr>"
      "[''f'', ''main'']" True 1000 "[(''main;f'', 7)]" "''main;f''"]
    fold_key_f_main
  by (simp add: dict_get_Nil dict_get_Cons)

text \<open>
  Claim C10. A record of positive weight with no program counter, anywhere among the
  records of a profile, is parsed into a stack trace like the others. In the loop that
  collects the stacks it is skipped: the table is the one that the other stack traces
  give, whatever the symbols of the counters are, and the whole conversion gives what
  it gives on the profile without that record.
\<close>

theorem empty_record_parsed_and_not_folded:
  assumes "slot period" "list_all valid_sample pre" "list_all valid_sample post" "slot pc"
    and "dec mm = Some t" "0 < w" "slot w"
  shows "parse_profiler_result dec (profile_bytes period (pre @ [(w, [])] @ post) pc mm) =
           Inr \<lparr>sampling_period_in_us = period, proc_mapped_objects = t,
                stacktraces = map sample_of pre
                  @ [\<lparr>sample_count = w, pcs = [], symbols = None\<rparr>] @ map sample_of post\<rparr>
       \<and> collect_stacks to_us period
             (map (assign_symbols m)
                (map sample_of pre @ [\<lparr>sample_count = w, pcs = [], symbols = None\<rparr>]
                   @ map sample_of post)) =
           collect_stacks to_us period
             (map (assign_symbols m) (map sample_of pre @ map sample_of post))
       \<and> add_stack to_us period d
             (assign_symbols m \<lparr>sample_count = w, pcs = [], symbols = None\<rparr>) = d
       \<and> process E exe eo (profile_bytes period (pre @ [(w, [])] @ post) pc mm) s a to_us =
           process E exe eo (profile_bytes period (pre @ post) pc mm) s a to_us"
proof -
  have "list_all valid_sample (pre @ [(w, [])] @ post)"
    using assms by (simp add: valid_sample_def slot_def)
  from parse_profile_bytes [OF assms(1) this assms(4), of dec mm] assms(5)
  have "parse_profiler_result dec (profile_bytes period (pre @ [(w, [])] @ post) pc mm) =
      Inr \<lparr>sampling_period_in_us = period, proc_mapped_objects = t,
           stacktraces = map sample_of pre
             @ [\<lparr>sample_count = w, pcs = [], symbols = None\<rparr>] @ map sample_of post\<rparr>"
    by (simp add: sample_of_def)
  moreover have "collect_stacks to_us period
        (map (assign_symbols m)
           (map sample_of pre @ [\<lparr>sample_count = w, pcs = [], symbols = None\<rparr>]
              @ map sample_of post)) =
      collect_stacks to_us period
        (map (assign_symbols m) (map sample_of pre @ map sample_of post))"
    unfolding collect_stacks_def by (rule collect_stacks_skip) simp
  moreover have "add_stack to_us period d
      (assign_symbols m \<lparr>sample_count = w, pcs = [], symbols = None\<rparr>) = d"
    by (rule add_stack_no_symbols) simp
  moreover have "process E exe eo (profile_bytes period (pre @ [(w, [])] @ post) pc mm) s a to_us =
      process E exe eo (profile_bytes period (pre @ post) pc mm) s a to_us"
    using assms(1,2,3,4,6,7) by (rule process_skips_empty_record)
  ultimately show ?thesis by simp
qed

theorem empty_record_parsed_and_not_folded_witness:
  "parse_profiler_result ascii_decode (profile_bytes 1000 ([(5, [7, 8])] @ [(3, [])] @ []) 9 []) =
     Inr \<lparr>sampling_period_in_us = 1000, proc_mapped_objects = [],
          stacktraces = [\<lparr>sample_count = 5, pcs = [7, 8], symbols = None\<rparr>,
                         \<lparr>sample_count = 3, pcs = [], symbols = None\<rparr>]\<rparr>
   \<and> collect_stacks False 1000
        (map (assign_symbols Map.empty)
           [\<lparr>sample_count = 5, pcs = [7, 8], symbols = None\<rparr>,
            \<lparr>sample_count = 3, pcs = [], symbols = None\<rparr>]) =
      [(''???'', 5)]"
proof -
  have k: "fold_key [''???'', ''???''] = ''???''"
    by (simp add: fold_key_def trim_unknown_closed UNKNOWN_SYMBOL_def)
  have "collect_stacks False 1000
      (map (assign_symbols Map.empty) [\<lparr>sample_count = 5, pcs = [7, 8], symbols = None\<rparr>]) =
      [(''???'', 5)]"
    using k by (simp add: collect_stacks_def add_stack_def assign_symbols_def get_symbol_def
        UNKNOWN_SYMBOL_def)
  then show ?thesis
    using empty_record_parsed_and_not_folded
      [of 1000 "[(5, [7, 8])]" "[]" 9 ascii_decode "[]" "[]" 3 False Map.empty]
    by (simp add: slot_def valid_sample_def sample_of_def ascii_decode_def)
qed

section \<open>Facts about the simplification of symbols\<close>

lemma remove_matching_brackets_loop_eq:
  "b \<noteq> e \<Longrightarrow> depth \<le> 0 \<Longrightarrow>
     remove_matching_brackets_loop b e s result depth =
       (if depth = 0 then result @ filter (\<lambda>c. c \<noteq> b) (takeWhile (\<lambda>c. c \<noteq> e) s)
        else result)"
  by (induction s arbitrary: result depth) auto

lemma remove_matching_brackets_eq:
  "b \<noteq> e \<Longrightarrow>
     remove_matching_brackets s b e = filter (\<lambda>c. c \<noteq> b) (takeWhile (\<lambda>c. c \<noteq> e) s)"
  by (simp add: remove_matching_brackets_def remove_matching_brackets_loop_eq)

text \<open>
  Claim C7. The source does not remove the bracket groups: on \<open>foo(bar)\<close> the
  simplification yields \<open>foobar\<close>, the text inside the brackets is kept, where the
  claim says \<open>foo\<close>; and what follows the first closing bracket is lost.
\<close>

theorem cleanup_symbol_keeps_bracket_content:
  "cleanup_symbol ''foo(bar)'' = ''foobar''
   \<and> cleanup_symbol ''foo(bar)'' \<noteq> ''foo''
   \<and> cleanup_symbol ''f(a)::g'' = ''fa''"
  by (simp add: cleanup_symbol_def remove_matching_brackets_eq py_strip_def)

section \<open>Facts about the resolver\<close>

lemma bisect_loop_bounds:
  "sorted a \<Longrightarrow> lo \<le> hi \<Longrightarrow> hi \<le> length a \<Longrightarrow>
     (\<forall>i<lo. a ! i \<le> x) \<Longrightarrow> (\<forall>i. hi \<le> i \<and> i < length a \<longrightarrow> x < a ! i) \<Longrightarrow>
     bisect_loop a x lo hi \<le> length a \<and>
     (\<forall>i<bisect_loop a x lo hi. a ! i \<le> x) \<and>
     (\<forall>i. bisect_loop a x lo hi \<le> i \<and> i < length a \<longrightarrow> x < a ! i)"
proof (induction a x lo hi rule: bisect_loop.induct)
  case (1 a x lo hi)
  from "1.prems" have srt: "sorted a" by simp
  show ?case
  proof (cases "lo < hi")
    case False
    with "1.prems" have "lo = hi" by simp
    moreover have "bisect_loop a x lo hi = lo"
      using False by (subst bisect_loop.simps) simp
    ultimately show ?thesis using "1.prems" by simp
  next
    case True
    define mid where "mid = (lo + hi) div 2"
    have m: "lo \<le> mid" "mid < hi" using True by (auto simp: mid_def)
    show ?thesis
    proof (cases "x < a ! mid")
      case lt: True
      have step: "bisect_loop a x lo hi = bisect_loop a x lo mid"
        using True lt by (subst bisect_loop.simps) (simp add: mid_def Let_def)
      have above: "\<forall>i. mid \<le> i \<and> i < length a \<longrightarrow> x < a ! i"
      proof (intro allI impI)
        fix i assume "mid \<le> i \<and> i < length a"
        then have "a ! mid \<le> a ! i"
          using srt by (simp add: sorted_nth_mono)
        with lt show "x < a ! i" by simp
      qed
      show ?thesis
        unfolding step
        using "1.IH"(1) [OF True mid_def lt] m "1.prems" above srt by simp
    next
      case ge: False
      have step: "bisect_loop a x lo hi = bisect_loop a x (mid + 1) hi"
        using True ge by (subst bisect_loop.simps) (simp add: mid_def Let_def)
      have below: "\<forall>i<mid + 1. a ! i \<le> x"
      proof (intro allI impI)
        fix i assume "i < mid + 1"
        then have "a ! i \<le> a ! mid"
          using srt m "1.prems" by (simp add: sorted_nth_mono)
        with ge show "a ! i \<le> x" by simp
      qed
      show ?thesis
        unfolding step
        using "1.IH"(2) [OF True mid_def ge] m "1.prems" below srt by simp
    qed
  qed
qed

lemma filter_eq_take:
  assumes "r \<le> length xs" "\<forall>i<r. P (xs ! i)" "\<forall>i. r \<le> i \<and> i < length xs \<longrightarrow> \<not> P (xs ! i)"
  shows "filter P xs = take r xs"
proof -
  have "filter P (take r xs) = take r xs"
    using assms(1,2) by (auto simp: filter_id_conv in_set_conv_nth)
  moreover have "filter P (drop r xs) = []"
    using assms(3) by (auto simp: filter_empty_conv in_set_conv_nth)
  ultimately show ?thesis
    by (metis append_Nil2 append_take_drop_id filter_append)
qed

lemma bisect_right_filter:
  assumes "sorted a"
  shows "bisect_right a x = length (filter (\<lambda>y. y \<le> x) a)"
proof -
  let ?r = "bisect_right a x"
  have b: "?r \<le> length a" "\<forall>i<?r. a ! i \<le> x" "\<forall>i. ?r \<le> i \<and> i < length a \<longrightarrow> x < a ! i"
    using bisect_loop_bounds [OF assms, of 0 "length a" x] by (auto simp: bisect_right_def)
  have "filter (\<lambda>y. y \<le> x) a = take ?r a"
    using b by (intro filter_eq_take) auto
  then show ?thesis using b(1) by simp
qed

lemma last_take_nth:
  assumes "0 < n" "n \<le> length xs"
  shows "last (take n xs) = xs ! (n - 1)"
proof -
  have "take n xs \<noteq> []" using assms by auto
  then have "last (take n xs) = take n xs ! (length (take n xs) - 1)"
    by (rule last_conv_nth)
  then show ?thesis using assms by simp
qed

lemma rightmost_symbol_index:
  assumes "sorted_object obj"
  shows "rightmost_symbol obj t =
     (let idx = int (bisect_right (all_addrs_sorted obj) t) - 1
      in if 0 \<le> idx \<and> idx < int (length (all_symbols_sorted obj))
         then Some (all_symbols_sorted obj ! nat idx) else None)"
proof -
  let ?syms = "all_symbols_sorted obj"
  let ?r = "bisect_right (all_addrs_sorted obj) t"
  from assms have a: "all_addrs_sorted obj = map address ?syms"
    by (simp add: sorted_object_def)
  from assms have s: "sorted (map address ?syms)"
    by (metis sorted_object_def)
  have r: "?r = length (filter (\<lambda>s. address s \<le> t) ?syms)"
    using bisect_right_filter [OF s, of t] by (simp add: a filter_map comp_def)
  have b: "?r \<le> length (map address ?syms)"
    "\<forall>i<?r. map address ?syms ! i \<le> t"
    "\<forall>i. ?r \<le> i \<and> i < length (map address ?syms) \<longrightarrow> t < map address ?syms ! i"
    using bisect_loop_bounds [OF s, of 0 "length (map address ?syms)" t]
    by (auto simp: bisect_right_def a)
  have f: "filter (\<lambda>s. address s \<le> t) ?syms = take ?r ?syms"
    using b by (intro filter_eq_take) auto
  show ?thesis
  proof (cases "?r = 0")
    case True
    then show ?thesis using f by (simp add: rightmost_symbol_def)
  next
    case False
    then have "take ?r ?syms \<noteq> []" using b(1) by auto
    moreover have "last (take ?r ?syms) = ?syms ! (?r - 1)"
      using False b(1) by (intro last_take_nth) auto
    moreover have "nat (int ?r - 1) = ?r - 1" by simp
    ultimately show ?thesis
      using False b(1) f
      by (cases "take ?r ?syms") (auto simp: rightmost_symbol_def Let_def)
  qed
qed

lemma resolve_pc_eq:
  assumes "sorted_object obj"
  shows "resolve_pc obj s a r pc =
     (case region_symbol obj s a pc of None \<Rightarrow> r | Some v \<Rightarrow> r(pc \<mapsto> v))"
  using rightmost_symbol_index [OF assms, of "addr_before_linked obj pc"]
  by (simp add: resolve_pc_def region_symbol_def in_region_def Let_def)

lemma fold_update_map:
  "fold (\<lambda>pc r. case g pc of None \<Rightarrow> r | Some v \<Rightarrow> r(pc \<mapsto> v)) ps r q =
     (if q \<in> set ps then (case g q of None \<Rightarrow> r q | Some v \<Rightarrow> Some v) else r q)"
  by (induction ps arbitrary: r) (auto split: option.splits)

lemma fold_resolve_pc:
  assumes "sorted_object obj"
  shows "fold (\<lambda>pc r. resolve_pc obj s a r pc) ps r q =
     (if q \<in> set ps
      then (case region_symbol obj s a q of None \<Rightarrow> r q | Some v \<Rightarrow> Some v)
      else r q)"
  by (simp only: resolve_pc_eq [OF assms] fold_update_map)

lemma fold_objects:
  assumes "\<forall>obj\<in>set objects. sorted_object obj"
  shows "fold (\<lambda>obj result. fold (\<lambda>pc r. resolve_pc obj s a r pc) ps result) objects r q =
     (if q \<in> set ps
      then fold (\<lambda>obj acc. case region_symbol obj s a q of None \<Rightarrow> acc | Some v \<Rightarrow> Some v)
             objects (r q)
      else r q)"
  using assms
proof (induction objects arbitrary: r)
  case Nil
  then show ?case by simp
next
  case (Cons obj objects)
  then show ?case
    by (simp add: fold_resolve_pc)
qed

lemma resolve_symbols_batch_eq:
  assumes "\<forall>obj\<in>set objects. sorted_object obj"
  shows "resolve_symbols_batch objects ps s a q =
     (if q \<in> set ps
      then fold (\<lambda>obj acc. case region_symbol obj s a q of None \<Rightarrow> acc | Some v \<Rightarrow> Some v)
             objects None
      else None)"
  using fold_objects [OF assms, of s a ps Map.empty q]
  by (simp add: resolve_symbols_batch_def)

lemma fold_none:
  "\<forall>x\<in>set xs. g x = None \<Longrightarrow>
     fold (\<lambda>x acc. case g x of None \<Rightarrow> acc | Some v \<Rightarrow> Some v) xs acc = acc"
  by (induction xs arbitrary: acc) auto

lemma fold_last_some:
  "g x = Some v \<Longrightarrow> \<forall>y\<in>set post. g y = None \<Longrightarrow>
     fold (\<lambda>x acc. case g x of None \<Rightarrow> acc | Some v \<Rightarrow> Some v) (pre @ x # post) acc = Some v"
  by (simp add: fold_none)

lemma fold_agree:
  "\<forall>y\<in>set xs. g y = None \<or> g y = V \<Longrightarrow> acc = None \<or> acc = V \<Longrightarrow> \<exists>x\<in>set xs. g x = V \<Longrightarrow>
     fold (\<lambda>x acc. case g x of None \<Rightarrow> acc | Some v \<Rightarrow> Some v) xs acc = V"
proof (induction xs arbitrary: acc)
  case Nil
  then show ?case by simp
next
  case (Cons x xs)
  let ?acc = "case g x of None \<Rightarrow> acc | Some v \<Rightarrow> Some v"
  have acc': "?acc = None \<or> ?acc = V"
    using Cons.prems(1,2) by (auto split: option.splits)
  show ?case
  proof (cases "\<exists>y\<in>set xs. g y = V")
    case True
    then show ?thesis using Cons.IH [OF _ acc' True] Cons.prems(1) by simp
  next
    case False
    with Cons.prems have gx: "g x = V" and rest: "\<forall>y\<in>set xs. g y = None" by auto
    have "?acc = V" using gx Cons.prems(2) by (auto split: option.splits)
    then show ?thesis using fold_none [OF rest, of ?acc] by simp
  qed
qed

lemma rightmost_symbol_None:
  assumes "sorted_object obj"
  shows "rightmost_symbol obj t = None \<longleftrightarrow>
     all_symbols_sorted obj = [] \<or> t < address (hd (all_symbols_sorted obj))"
proof (cases "all_symbols_sorted obj")
  case Nil
  then show ?thesis by (simp add: rightmost_symbol_def)
next
  case (Cons x xs)
  from assms Cons have le: "\<forall>y\<in>set xs. address x \<le> address y"
    by (auto simp: sorted_object_def)
  have B: "filter (\<lambda>s. address s \<le> t) (x # xs) = [] \<longleftrightarrow> t < address x"
    using le by (auto simp: filter_empty_conv)
  have A: "rightmost_symbol obj t = None \<longleftrightarrow>
      filter (\<lambda>s. address s \<le> t) (all_symbols_sorted obj) = []"
    by (simp add: rightmost_symbol_def split: list.splits)
  show ?thesis
    unfolding A using B by (simp only: Cons list.sel) simp
qed

lemma sorted_object_region_h: "sorted_object region_h"
  by (simp add: sorted_object_def region_h_def new_Symbol_def)

lemma sorted_object_region_f: "sorted_object region_f"
  by (simp add: sorted_object_def region_f_def new_Symbol_def)

lemma sorted_object_region_g: "sorted_object region_g"
  by (simp add: sorted_object_def region_g_def new_Symbol_def)

lemma sorted_object_region_g50: "sorted_object region_g50"
  by (simp add: sorted_object_def region_g50_def new_Symbol_def)

text \<open>
  Claim C1, as amended. The objects are as \<open>SymbolResolver.__init__\<close> builds them
  (addresses those of the symbols, ascending). A region resolves the counter when the
  counter is in its range and its table has an entry at or before the translated address
  \<open>pc - start + offset + base\<close>, that is, the table is not empty and the translated
  address is not before the address of its first symbol. When no region resolves the
  counter, in particular when the counter is outside every region, the counter gets the
  unknown marker. Otherwise it gets the text of the rightmost entry, with address at most
  the translated address, of the last region of the list that resolves it. When no two
  different regions contain the counter, this is the claim as it was stated, for the one
  region that contains the counter.
\<close>

theorem resolved_symbol_unknown_or_rightmost:
  assumes "\<forall>obj\<in>set objects. sorted_object obj"
    and "pc \<in> set ps"
  shows "((\<forall>obj\<in>set objects.
             start_address obj \<le> pc \<and> pc < end_address obj \<longrightarrow>
             all_symbols_sorted obj = [] \<or>
             pc - start_address obj + offset obj + obj_start_vma obj
               < address (hd (all_symbols_sorted obj))) \<longrightarrow>
            get_symbol (resolve_symbols_batch objects ps s a) pc = UNKNOWN_SYMBOL)
       \<and> (\<forall>pre obj post.
            objects = pre @ obj # post \<and>
            start_address obj \<le> pc \<and> pc < end_address obj \<and>
            \<not> (all_symbols_sorted obj = [] \<or>
               pc - start_address obj + offset obj + obj_start_vma obj
                 < address (hd (all_symbols_sorted obj))) \<and>
            (\<forall>y\<in>set post.
               start_address y \<le> pc \<and> pc < end_address y \<longrightarrow>
               all_symbols_sorted y = [] \<or>
               pc - start_address y + offset y + obj_start_vma y
                 < address (hd (all_symbols_sorted y))) \<longrightarrow>
            get_symbol (resolve_symbols_batch objects ps s a) pc =
              sym_str_of obj s a
                (last (filter
                   (\<lambda>e. address e \<le> pc - start_address obj + offset obj + obj_start_vma obj)
                   (all_symbols_sorted obj))))
       \<and> ((\<forall>o1\<in>set objects. \<forall>o2\<in>set objects.
              start_address o1 \<le> pc \<and> pc < end_address o1 \<and>
              start_address o2 \<le> pc \<and> pc < end_address o2 \<longrightarrow> o1 = o2) \<longrightarrow>
           (\<forall>obj\<in>set objects. start_address obj \<le> pc \<and> pc < end_address obj \<longrightarrow>
              get_symbol (resolve_symbols_batch objects ps s a) pc =
                (if all_symbols_sorted obj = [] \<or>
                    pc - start_address obj + offset obj + obj_start_vma obj
                      < address (hd (all_symbols_sorted obj))
                 then UNKNOWN_SYMBOL
                 else sym_str_of obj s a
                        (last (filter
                           (\<lambda>e. address e \<le> pc - start_address obj + offset obj + obj_start_vma obj)
                           (all_symbols_sorted obj))))))"
proof -
  let ?t = "\<lambda>obj. pc - start_address obj + offset obj + obj_start_vma obj"
  let ?unres = "\<lambda>obj. all_symbols_sorted obj = [] \<or> ?t obj < address (hd (all_symbols_sorted obj))"
  let ?inr = "\<lambda>obj. start_address obj \<le> pc \<and> pc < end_address obj"
  let ?res = "resolve_symbols_batch objects ps s a pc"
  have batch: "?res =
      fold (\<lambda>obj acc. case region_symbol obj s a pc of None \<Rightarrow> acc | Some v \<Rightarrow> Some v)
        objects None"
    using resolve_symbols_batch_eq [OF assms(1), of ps s a pc] assms(2) by simp
  have none: "region_symbol obj s a pc = None"
    if "obj \<in> set objects" "?inr obj \<longrightarrow> ?unres obj" for obj
  proof -
    have "sorted_object obj" using assms(1) that(1) by simp
    from rightmost_symbol_None [OF this, of "?t obj"] that(2) show ?thesis
      by (auto simp: region_symbol_def in_region_def addr_before_linked_def)
  qed
  have some: "region_symbol obj s a pc =
      Some (sym_str_of obj s a (last (filter (\<lambda>e. address e \<le> ?t obj) (all_symbols_sorted obj))))"
    if "obj \<in> set objects" "?inr obj" "\<not> ?unres obj" for obj
  proof -
    have so: "sorted_object obj" using assms(1) that(1) by simp
    from rightmost_symbol_None [OF so, of "?t obj"] that(3)
    obtain e where e: "rightmost_symbol obj (?t obj) = Some e" by auto
    then have "e = last (filter (\<lambda>e. address e \<le> ?t obj) (all_symbols_sorted obj))"
      by (auto simp: rightmost_symbol_def split: list.splits)
    with e that(2) show ?thesis
      by (simp add: region_symbol_def in_region_def addr_before_linked_def)
  qed
  have A: "(\<forall>obj\<in>set objects. ?inr obj \<longrightarrow> ?unres obj) \<longrightarrow>
      get_symbol (resolve_symbols_batch objects ps s a) pc = UNKNOWN_SYMBOL"
  proof
    assume "\<forall>obj\<in>set objects. ?inr obj \<longrightarrow> ?unres obj"
    then have "\<forall>obj\<in>set objects. region_symbol obj s a pc = None"
      using none by blast
    then have "?res = None"
      unfolding batch by (rule fold_none)
    then show "get_symbol (resolve_symbols_batch objects ps s a) pc = UNKNOWN_SYMBOL"
      by (simp add: get_symbol_def)
  qed
  have B: "\<forall>pre obj post.
      objects = pre @ obj # post \<and> ?inr obj \<and> \<not> ?unres obj \<and>
      (\<forall>y\<in>set post. ?inr y \<longrightarrow> ?unres y) \<longrightarrow>
      get_symbol (resolve_symbols_batch objects ps s a) pc =
        sym_str_of obj s a (last (filter (\<lambda>e. address e \<le> ?t obj) (all_symbols_sorted obj)))"
  proof (intro allI impI)
    fix pre obj post
    assume h: "objects = pre @ obj # post \<and> ?inr obj \<and> \<not> ?unres obj \<and>
      (\<forall>y\<in>set post. ?inr y \<longrightarrow> ?unres y)"
    then have o: "obj \<in> set objects" and p: "\<forall>y\<in>set post. y \<in> set objects" by auto
    from some [OF o] h have 1: "region_symbol obj s a pc =
        Some (sym_str_of obj s a (last (filter (\<lambda>e. address e \<le> ?t obj) (all_symbols_sorted obj))))"
      by blast
    from none p h have 2: "\<forall>y\<in>set post. region_symbol y s a pc = None"
      by blast
    have "?res =
        Some (sym_str_of obj s a (last (filter (\<lambda>e. address e \<le> ?t obj) (all_symbols_sorted obj))))"
      unfolding batch using h fold_last_some [OF 1 2, of pre None] by simp
    then show "get_symbol (resolve_symbols_batch objects ps s a) pc =
        sym_str_of obj s a (last (filter (\<lambda>e. address e \<le> ?t obj) (all_symbols_sorted obj)))"
      by (simp add: get_symbol_def)
  qed
  have C: "(\<forall>o1\<in>set objects. \<forall>o2\<in>set objects. ?inr o1 \<and> ?inr o2 \<longrightarrow> o1 = o2) \<longrightarrow>
      (\<forall>obj\<in>set objects. ?inr obj \<longrightarrow>
         get_symbol (resolve_symbols_batch objects ps s a) pc =
           (if ?unres obj then UNKNOWN_SYMBOL
            else sym_str_of obj s a
                   (last (filter (\<lambda>e. address e \<le> ?t obj) (all_symbols_sorted obj)))))"
  proof (intro impI ballI)
    fix obj
    assume u: "\<forall>o1\<in>set objects. \<forall>o2\<in>set objects. ?inr o1 \<and> ?inr o2 \<longrightarrow> o1 = o2"
      and o: "obj \<in> set objects" and i: "?inr obj"
    let ?V = "region_symbol obj s a pc"
    have "\<forall>y\<in>set objects. region_symbol y s a pc = None \<or> region_symbol y s a pc = ?V"
    proof
      fix y assume y: "y \<in> set objects"
      show "region_symbol y s a pc = None \<or> region_symbol y s a pc = ?V"
      proof (cases "?inr y")
        case True
        with u o y i have "y = obj" by blast
        then show ?thesis by simp
      next
        case False
        then show ?thesis by (auto simp: region_symbol_def in_region_def)
      qed
    qed
    then have "?res = ?V"
      unfolding batch using o by (intro fold_agree) auto
    then show "get_symbol (resolve_symbols_batch objects ps s a) pc =
        (if ?unres obj then UNKNOWN_SYMBOL
         else sym_str_of obj s a
                (last (filter (\<lambda>e. address e \<le> ?t obj) (all_symbols_sorted obj))))"
      using none [OF o] some [OF o i] by (auto simp: get_symbol_def)
  qed
  from A B C show ?thesis by blast
qed

theorem resolved_symbol_unknown_or_rightmost_witness:
  "get_symbol (resolve_symbols_batch [region_h] [1250, 1050, 5000] False False) 1250 = ''s200''
   \<and> get_symbol (resolve_symbols_batch [region_h] [1250, 1050, 5000] False False) 1050 = ''???''
   \<and> get_symbol (resolve_symbols_batch [region_h] [1250, 1050, 5000] False False) 5000 = ''???''
   \<and> get_symbol (resolve_symbols_batch [region_g50, region_f, region_g50] [5] False False) 5 = ''f''"
proof -
  have h: "\<forall>obj\<in>set [region_h]. sorted_object obj"
    by (simp add: sorted_object_region_h)
  have g: "\<forall>obj\<in>set [region_g50, region_f, region_g50]. sorted_object obj"
    by (simp add: sorted_object_region_f sorted_object_region_g50)
  note t = resolved_symbol_unknown_or_rightmost [OF h, of _ "[1250, 1050, 5000]" False False]
  have 1: "get_symbol (resolve_symbols_batch [region_h] [1250, 1050, 5000] False False) 1250 = ''s200''"
    using t [of 1250, THEN conjunct2, THEN conjunct2]
    by (simp add: region_h_def new_Symbol_def sym_str_of_def)
  have 2: "get_symbol (resolve_symbols_batch [region_h] [1250, 1050, 5000] False False) 1050 = ''???''"
    using t [of 1050, THEN conjunct1]
    by (simp add: region_h_def new_Symbol_def UNKNOWN_SYMBOL_def)
  have 3: "get_symbol (resolve_symbols_batch [region_h] [1250, 1050, 5000] False False) 5000 = ''???''"
    using t [of 5000, THEN conjunct1]
    by (simp add: region_h_def new_Symbol_def UNKNOWN_SYMBOL_def)
  have 4: "get_symbol (resolve_symbols_batch [region_g50, region_f, region_g50] [5] False False) 5 = ''f''"
    using resolved_symbol_unknown_or_rightmost [OF g, of 5 "[5]" False False,
        THEN conjunct2, THEN conjunct1, rule_format, of "[region_g50]" region_f "[region_g50]"]
    by (simp add: region_f_def region_g50_def new_Symbol_def sym_str_of_def)
  from 1 2 3 4 show ?thesis by simp
qed

text \<open>
  The counter \<open>5\<close> is in \<open>region_g50\<close>, and its translated address there, \<open>5\<close>, is
  before the address \<open>50\<close> of the first symbol of that region; the claim gives the unknown
  marker for it. It is also in \<open>region_f\<close>, and the resolver assigns \<open>f\<close>.
\<close>

theorem counter_before_first_symbol_resolved_elsewhere:
  "start_address region_g50 \<le> 5 \<and> 5 < end_address region_g50
   \<and> 5 - start_address region_g50 + offset region_g50 + obj_start_vma region_g50
       < address (hd (all_symbols_sorted region_g50))
   \<and> get_symbol (resolve_symbols_batch [region_f, region_g50] [5] False False) 5 = ''f''
   \<and> get_symbol (resolve_symbols_batch [region_f, region_g50] [5] False False) 5 \<noteq> UNKNOWN_SYMBOL"
proof -
  have f: "region_symbol region_f False False 5 = Some ''f''"
    by (simp add: region_symbol_def in_region_def rightmost_symbol_def region_f_def
        new_Symbol_def addr_before_linked_def sym_str_of_def)
  have g: "region_symbol region_g50 False False 5 = None"
    by (simp add: region_symbol_def in_region_def rightmost_symbol_def region_g50_def
        new_Symbol_def addr_before_linked_def)
  have "resolve_symbols_batch [region_f, region_g50] [5] False False 5 = Some ''f''"
    using resolve_symbols_batch_eq [of "[region_f, region_g50]" "[5]" False False 5]
      sorted_object_region_f sorted_object_region_g50 f g by simp
  then show ?thesis
    by (simp add: get_symbol_def region_g50_def new_Symbol_def UNKNOWN_SYMBOL_def)
qed

text \<open>
  Claim C2, as amended. When several regions of the list contain the counter, the symbol
  comes from the last region of the list that contains it and has a symbol at or before
  the translated address: each region that resolves the counter overwrites the entry
  that an earlier region wrote.
\<close>

theorem last_matching_region_wins:
  assumes "\<forall>y\<in>set (pre @ obj # post). sorted_object y"
    and "pc \<in> set ps"
    and "in_region obj pc"
    and "rightmost_symbol obj (addr_before_linked obj pc) = Some e"
    and "\<forall>y\<in>set post. \<not> in_region y pc \<or> rightmost_symbol y (addr_before_linked y pc) = None"
  shows "get_symbol (resolve_symbols_batch (pre @ obj # post) ps s a) pc = sym_str_of obj s a e"
proof -
  have "region_symbol obj s a pc = Some (sym_str_of obj s a e)"
    using assms(3,4) by (simp add: region_symbol_def)
  moreover have "\<forall>y\<in>set post. region_symbol y s a pc = None"
    using assms(5) by (auto simp: region_symbol_def)
  ultimately have "fold (\<lambda>obj acc. case region_symbol obj s a pc of None \<Rightarrow> acc | Some v \<Rightarrow> Some v)
      (pre @ obj # post) None = Some (sym_str_of obj s a e)"
    by (rule fold_last_some)
  then show ?thesis
    using resolve_symbols_batch_eq [OF assms(1), of ps s a pc] assms(2)
    by (simp add: get_symbol_def)
qed

theorem last_matching_region_wins_witness:
  "get_symbol (resolve_symbols_batch ([] @ region_f # [region_g]) [5] False True) 5 = ''g [b.so]''
   \<and> get_symbol (resolve_symbols_batch ([region_g] @ region_f # []) [5] False True) 5 = ''f''"
proof -
  have f: "rightmost_symbol region_f (addr_before_linked region_f 5) = Some (new_Symbol 0 ''f'')"
    by (simp add: rightmost_symbol_def region_f_def new_Symbol_def addr_before_linked_def)
  have g: "rightmost_symbol region_g (addr_before_linked region_g 5) = Some (new_Symbol 0 ''g'')"
    by (simp add: rightmost_symbol_def region_g_def new_Symbol_def addr_before_linked_def)
  have rf: "in_region region_f 5" by (simp add: in_region_def region_f_def)
  have rg: "in_region region_g 5" by (simp add: in_region_def region_g_def)
  have n: "path_name ''/lib/b.so'' = ''b.so''"
    by (simp add: path_name_def)
  show ?thesis
    using last_matching_region_wins [of "[region_f]" region_g "[]" 5 "[5]" "new_Symbol 0 ''g''" False True]
      last_matching_region_wins [of "[region_g]" region_f "[]" 5 "[5]" "new_Symbol 0 ''f''" False True]
      f g rf rg sorted_object_region_f sorted_object_region_g n
    by (simp add: sym_str_of_def new_Symbol_def) (simp add: region_f_def region_g_def)
qed

text \<open>
  Both \<open>region_f\<close> and \<open>region_g\<close> contain the counter \<open>5\<close>; the first of the list
  gives \<open>f\<close> for it, and the resolver assigns \<open>g\<close>, the symbol of the second.
\<close>

theorem first_matching_region_overwritten:
  "in_region region_f 5 \<and> in_region region_g 5
   \<and> get_symbol (resolve_symbols_batch [region_f] [5] False False) 5 = ''f''
   \<and> get_symbol (resolve_symbols_batch [region_f, region_g] [5] False False) 5 = ''g''"
proof -
  have f: "region_symbol region_f False False 5 = Some ''f''"
    by (simp add: region_symbol_def in_region_def rightmost_symbol_def region_f_def
        new_Symbol_def addr_before_linked_def sym_str_of_def)
  have g: "region_symbol region_g False False 5 = Some ''g''"
    by (simp add: region_symbol_def in_region_def rightmost_symbol_def region_g_def
        new_Symbol_def addr_before_linked_def sym_str_of_def)
  have "resolve_symbols_batch [region_f] [5] False False 5 = Some ''f''"
    using resolve_symbols_batch_eq [of "[region_f]" "[5]" False False 5]
      sorted_object_region_f f by simp
  moreover have "resolve_symbols_batch [region_f, region_g] [5] False False 5 = Some ''g''"
    using resolve_symbols_batch_eq [of "[region_f, region_g]" "[5]" False False 5]
      sorted_object_region_f sorted_object_region_g f g by simp
  moreover have "in_region region_f 5 \<and> in_region region_g 5"
    by (simp add: in_region_def region_f_def region_g_def)
  ultimately show ?thesis by (simp add: get_symbol_def)
qed

section \<open>Facts about the memory-map model\<close>

lemma init_line_skips:
  assumes "split_ws (strip_ws line) = f0 # fs"
    and "startswith line ''build='' \<or> length (f0 # fs) \<noteq> 6 \<or> CHR ''x'' \<notin> set ((f0 # fs) ! 1) \<or>
         path_exists E (if path_name ((f0 # fs) ! 5) = path_name executable then executable
                        else (f0 # fs) ! 5) = Inr False \<or>
         (path_exists E (if path_name ((f0 # fs) ! 5) = path_name executable then executable
                         else (f0 # fs) ! 5) = Inr True \<and>
          path_readable E (if path_name ((f0 # fs) ! 5) = path_name executable then executable
                           else (f0 # fs) ! 5) = Inr False)"
  shows "init_line E executable executable_only objects line = Inr objects"
proof (cases "startswith line ''build=''")
  case True
  then show ?thesis by (simp add: init_line_def)
next
  case False
  note nb = False
  show ?thesis
  proof (cases "length (f0 # fs) \<noteq> 6")
    case True
    then show ?thesis using nb assms(1) by (simp add: init_line_def Let_def)
  next
    case False
    note six = False
    show ?thesis
    proof (cases "CHR ''x'' \<notin> set ((f0 # fs) ! 1)")
      case True
      then show ?thesis using nb six assms(1) by (simp add: init_line_def Let_def)
    next
      case False
      with nb six assms(2) have
        "path_exists E (if path_name ((f0 # fs) ! 5) = path_name executable then executable
                        else (f0 # fs) ! 5) = Inr False \<or>
         (path_exists E (if path_name ((f0 # fs) ! 5) = path_name executable then executable
                         else (f0 # fs) ! 5) = Inr True \<and>
          path_readable E (if path_name ((f0 # fs) ! 5) = path_name executable then executable
                           else (f0 # fs) ! 5) = Inr False)"
        by blast
      then show ?thesis
        using nb six False assms(1)
        by (auto simp add: init_line_def Let_def simp del: nth_Cons_Suc nth_Cons_numeral)
    qed
  qed
qed

lemma init_line_exists_error:
  assumes "split_ws (strip_ws line) = f0 # fs" "\<not> startswith line ''build=''"
    and "length (f0 # fs) = 6" "CHR ''x'' \<in> set ((f0 # fs) ! 1)"
    and "path_name ((f0 # fs) ! 5) = path_name executable"
    and "path_exists E executable = Inl e"
  shows "init_line E executable executable_only objects line = Inl e"
  using assms by (simp add: init_line_def Let_def del: nth_Cons_Suc nth_Cons_numeral)

lemma init_line_build:
  "startswith line ''build='' \<Longrightarrow> init_line E x eo objects line = Inr objects"
  by (simp add: init_line_def)

lemma init_line_no_fields:
  "\<not> startswith line ''build='' \<Longrightarrow> split_ws (strip_ws line) = [] \<Longrightarrow>
     init_line E x eo objects line = Inl IndexError"
  by (simp add: init_line_def)

lemma splitlines_maps:
  "splitlines (strip_ws maps_with_empty_line) =
     [''00400000-00401000 r--p 00000000 08:01 1 /bin/a'', [],
      ''00401000-00402000 r-xp 00001000 08:01 1 /bin/a'']"
  by code_simp

lemma fields_first_line:
  "split_ws (strip_ws ''00400000-00401000 r--p 00000000 08:01 1 /bin/a'') =
     [''00400000-00401000'', ''r--p'', ''00000000'', ''08:01'', ''1'', ''/bin/a'']"
  by code_simp

text \<open>
  Claim C8. On a memory map with an empty line between two mappings the construction of
  the resolver stops with \<open>IndexError\<close>: the empty line has no field, and \<open>fields[0]\<close> is
  read before the number of fields is tested. The claim says that a line that does not
  split into six fields is skipped without error.
\<close>

theorem init_fails_on_empty_line:
  "SymbolResolver_init E ''/bin/a'' maps_with_empty_line executable_only = Inl IndexError"
proof -
  have 1: "init_line E ''/bin/a'' executable_only []
      ''00400000-00401000 r--p 00000000 08:01 1 /bin/a'' = Inr []"
    by (rule init_line_skips [OF fields_first_line]) simp
  have "\<not> startswith [] ''build=''" "split_ws (strip_ws []) = []"
    by (simp_all add: startswith_def split_ws_def strip_ws_def)
  then have 2: "init_line E ''/bin/a'' executable_only [] [] = Inl IndexError"
    by (rule init_line_no_fields)
  show ?thesis
    by (simp add: SymbolResolver_init_def splitlines_maps 1 2)
qed

lemma find_object_all_symbols_sorted_sorted:
  "find_object_all_symbols_sorted E p = Inr syms \<Longrightarrow> sorted (map address syms)"
  by (auto simp: find_object_all_symbols_sorted_def split: sum.splits)

lemma init_line_sorted:
  assumes "init_line E executable executable_only objects line = Inr objects'"
    and "\<forall>obj\<in>set objects. sorted_object obj"
  shows "\<forall>obj\<in>set objects'. sorted_object obj"
  using assms
  by (auto simp: init_line_def Let_def sorted_object_def
      dest!: find_object_all_symbols_sorted_sorted
      split: if_splits list.splits sum.splits)

lemma init_lines_sorted:
  "init_lines E executable executable_only objects ls = Inr objects' \<Longrightarrow>
     \<forall>obj\<in>set objects. sorted_object obj \<Longrightarrow> \<forall>obj\<in>set objects'. sorted_object obj"
proof (induction ls arbitrary: objects)
  case Nil
  then show ?case by simp
next
  case (Cons l ls)
  from Cons.prems(1) obtain o1 where
    1: "init_line E executable executable_only objects l = Inr o1" and
    2: "init_lines E executable executable_only o1 ls = Inr objects'"
    by (auto split: sum.splits)
  from init_line_sorted [OF 1 Cons.prems(2)] Cons.IH [OF 2] show ?case by blast
qed

lemma SymbolResolver_init_sorted:
  "SymbolResolver_init E executable mapped executable_only = Inr objects \<Longrightarrow>
     \<forall>obj\<in>set objects. sorted_object obj"
  using init_lines_sorted [of E executable executable_only "[]"]
  by (simp add: SymbolResolver_init_def)

end
